theory Spec2Isabelle
  imports Complex_Main "HOL-Library.Word" "HOL-Library.AList"
begin

section \<open>Sequence codec (include/utils.h)\<close>

text \<open>
  \<^verbatim>\<open>enum Base: uchar { A = 0, C = 1, G = 2, T = 3, N = 4 }\<close>: an enumeration whose
  underlying type is \<^verbatim>\<open>unsigned char\<close>, so a value of type Base is any byte.
\<close>

type_synonym Base = "8 word"

definition base_to_num :: "char \<Rightarrow> Base" where
  "base_to_num c =
     (if c = CHR ''A'' \<or> c = CHR ''a'' then 0
      else if c = CHR ''C'' \<or> c = CHR ''c'' then 1
      else if c = CHR ''G'' \<or> c = CHR ''g'' then 2
      else if c = CHR ''T'' \<or> c = CHR ''t'' then 3
      else 4)"

definition num_to_base :: "Base \<Rightarrow> char" where
  "num_to_base num =
     (if num = 0 then CHR ''A''
      else if num = 1 then CHR ''C''
      else if num = 2 then CHR ''G''
      else if num = 3 then CHR ''T''
      else CHR ''N'')"

text \<open>\<^verbatim>\<open>std::transform\<close> over the string into a vector of the same length.\<close>

definition seq_to_num :: "string \<Rightarrow> Base list" where
  "seq_to_num s = map base_to_num s"

text \<open>The string builder appends one character for each element.\<close>

definition num_to_seq :: "Base list \<Rightarrow> string" where
  "num_to_seq num = map num_to_base num"

section \<open>Graph (include/graph.h, src/graph.cpp)\<close>

text \<open>
  The exceptions of the graph code, as values. \<open>CycleDetected\<close> is the
  \<^verbatim>\<open>std::domain_error\<close> of \<^verbatim>\<open>_visit\<close>, \<open>InvalidDerivation\<close> the
  \<^verbatim>\<open>std::invalid_argument\<close> of \<^verbatim>\<open>_build_derived_edges\<close>, \<open>OutOfRange\<close> the
  \<^verbatim>\<open>std::out_of_range\<close> of \<^verbatim>\<open>at()\<close>, and \<open>UndefinedRead\<close> stands for an
  unchecked \<^verbatim>\<open>operator[]\<close> read past the end of a vector, which C++ leaves undefined.
\<close>

datatype error = CycleDetected | InvalidDerivation | OutOfRange | UndefinedRead

text \<open>
  The allele frequency is a \<^verbatim>\<open>float\<close>, and the only operation the graph code applies to
  it is the comparison \<^verbatim>\<open>>\<close>. A \<^verbatim>\<open>float\<close> is a NaN, an infinity or a finite number; the
  finite ones are real numbers here (rounding happens when a value is stored, not when two
  stored values are compared). A comparison with a NaN is false.
\<close>

datatype cfloat = NaN | NegInf | Fin real | PosInf

fun float_gt :: "cfloat \<Rightarrow> cfloat \<Rightarrow> bool" where
  "float_gt NaN b = False"
| "float_gt a NaN = False"
| "float_gt PosInf PosInf = False"
| "float_gt PosInf b = True"
| "float_gt a PosInf = False"
| "float_gt NegInf b = False"
| "float_gt (Fin x) NegInf = True"
| "float_gt (Fin x) (Fin y) = (y < x)"

text \<open>
  A node. The private members \<^verbatim>\<open>_endPos, _seq, _individuals, _ref, _af, _id\<close> become the
  fields \<open>n_endPos\<close> ... \<open>n_id\<close>. Ids are \<^verbatim>\<open>long\<close>; they are only compared, never
  computed with, so they are integers here.
\<close>

record node =
  n_endPos :: int
  n_seq :: "Base list"
  n_individuals :: "bool list"
  n_ref :: bool
  n_af :: cfloat
  n_id :: int

text \<open>
  \<^verbatim>\<open>int belongs(uint ind) const { if (_ref) return -1; return _individuals[ind]; }\<close>
\<close>

definition belongs :: "node \<Rightarrow> nat \<Rightarrow> error + int" where
  "belongs n ind =
     (if n_ref n then Inr (- 1)
      else if ind < length (n_individuals n)
        then Inr (if n_individuals n ! ind then 1 else 0)
        else Inl UndefinedRead)"

text \<open>
  A graph. The unordered node map \<^verbatim>\<open>_IDMap\<close> is an association list with one entry for
  each key; the list stands for the map, and its order means nothing. The order in which a
  \<^verbatim>\<open>std::unordered_map\<close> yields its entries to a range-based \<^verbatim>\<open>for\<close> is not specified by
  C++; the constructors that iterate a map take it as the parameter \<open>iter\<close>, which lists the
  entries of a map in the order of the iteration. The adjacency maps are only looked up and
  are partial functions. A derived graph copies the handle of the parent's node map; no
  claim below mutates a node map that two graphs share, so each graph carries the map's
  value.
\<close>

type_synonym iteration = "(int \<times> node) list \<Rightarrow> (int \<times> node) list"

record graph =
  g_root :: int
  g_IDMap :: "(int \<times> node) list"
  g_next_map :: "int \<rightharpoonup> int list"
  g_prev_map :: "int \<rightharpoonup> int list"
  g_toposort :: "int list"
  g_add_order :: "int list"
  g_desc :: string
  g_pop_size :: int

text \<open>\<^verbatim>\<open>Graph()\<close>: the member initialisers and an empty node map.\<close>

definition Graph_default :: graph where
  "Graph_default =
     \<lparr>g_root = - 1, g_IDMap = [], g_next_map = Map.empty, g_prev_map = Map.empty,
      g_toposort = [], g_add_order = [], g_desc = [], g_pop_size = 0\<rparr>"

text \<open>
  \<^verbatim>\<open>finalize\<close> assigns the insertion order and returns. The statements after the
  \<^verbatim>\<open>return\<close> (the depth-first sort) are unreachable, so no path of \<^verbatim>\<open>finalize\<close> throws;
  the result type keeps the error alternative so that the claim about failure can be stated.
\<close>

definition finalize :: "graph \<Rightarrow> error + graph" where
  "finalize g = Inr (g\<lparr>g_toposort := g_add_order g\<rparr>)"

definition add_node :: "graph \<Rightarrow> node \<Rightarrow> int \<times> graph" where
  "add_node g n =
     (if map_of (g_IDMap g) (n_id n) \<noteq> None then (0, g)
      else
        let g1 = (if g_root g < 0 then g\<lparr>g_root := n_id n\<rparr> else g)
        in (n_id n,
            g1\<lparr>g_IDMap := g_IDMap g1 @ [(n_id n, n)],
               g_add_order := g_add_order g1 @ [n_id n]\<rparr>))"

text \<open>The adjacency list stored for a key, empty when the key is absent.\<close>

definition adj :: "(int \<rightharpoonup> int list) \<Rightarrow> int \<Rightarrow> int list" where
  "adj m k = (case m k of None \<Rightarrow> [] | Some l \<Rightarrow> l)"

definition add_edge :: "graph \<Rightarrow> int \<Rightarrow> int \<Rightarrow> bool \<times> graph" where
  "add_edge g n1 n2 =
     (if map_of (g_IDMap g) n1 = None \<or> map_of (g_IDMap g) n2 = None then (False, g)
      else
        let nm = (if g_next_map g n1 = None then (g_next_map g)(n1 \<mapsto> []) else g_next_map g);
            pm = (if g_prev_map g n2 = None then (g_prev_map g)(n2 \<mapsto> []) else g_prev_map g);
            nm' = nm(n1 \<mapsto> adj nm n1 @ [n2]);
            pm' = pm(n2 \<mapsto> adj pm n2 @ [n1])
        in (True, g\<lparr>g_next_map := nm', g_prev_map := pm', g_toposort := []\<rparr>))"

subsection \<open>Derived graphs\<close>

text \<open>
  The constructors of a derived graph start from the default member values and copy the
  parent's node map handle and population size.
\<close>

definition derived_init :: "graph \<Rightarrow> graph" where
  "derived_init g = Graph_default\<lparr>g_IDMap := g_IDMap g, g_pop_size := g_pop_size g\<rparr>"

text \<open>The indexes of the individuals that are included in the filter.\<close>

definition filter_indexes :: "bool list \<Rightarrow> nat list" where
  "filter_indexes flt = filter (\<lambda>i. flt ! i) [0..<length flt]"

text \<open>
  The inner loop \<^verbatim>\<open>for (long i : indexes) if (n.second->belongs(i)) { ...; break; }\<close>:
  whether some index makes \<^verbatim>\<open>belongs\<close> answer non-zero. The loop body does not run when
  there is no index.
\<close>

fun belongs_any :: "node \<Rightarrow> nat list \<Rightarrow> error + bool" where
  "belongs_any n [] = Inr False"
| "belongs_any n (i # rest) =
     (case belongs n i of
        Inl e \<Rightarrow> Inl e
      | Inr b \<Rightarrow> if b \<noteq> 0 then Inr True else belongs_any n rest)"

text \<open>
  The outer loop over the entries of the node map, in the order of the iteration, filling
  \<^verbatim>\<open>includedNodes\<close>. \<^verbatim>\<open>includedNodes[k] = n\<close> replaces the value of a present key and
  adds an absent one (\<open>AList.update\<close>).
\<close>

fun include_nodes ::
  "(int \<times> node) list \<Rightarrow> nat list \<Rightarrow> (int \<times> node) list \<Rightarrow> error + (int \<times> node) list" where
  "include_nodes [] indexes inc = Inr inc"
| "include_nodes ((k, n) # rest) indexes inc =
     (case belongs_any n indexes of
        Inl e \<Rightarrow> Inl e
      | Inr b \<Rightarrow> include_nodes rest indexes (if b then AList.update k n inc else inc))"

text \<open>
  \<^verbatim>\<open>_build_derived_edges\<close>. The inner loop runs over the parent's successors of one
  included node, the outer loop over the entries of \<^verbatim>\<open>includedNodes\<close> (its last argument,
  in the order of the iteration); then the root is checked.
\<close>

fun add_included_edges :: "graph \<Rightarrow> (int \<times> node) list \<Rightarrow> int \<Rightarrow> int list \<Rightarrow> graph" where
  "add_included_edges this inc n1 [] = this"
| "add_included_edges this inc n1 (e # es) =
     add_included_edges
       (if map_of inc e \<noteq> None then snd (add_edge this n1 e) else this) inc n1 es"

fun add_edges_of_nodes ::
  "graph \<Rightarrow> graph \<Rightarrow> (int \<times> node) list \<Rightarrow> (int \<times> node) list \<Rightarrow> graph" where
  "add_edges_of_nodes this g inc [] = this"
| "add_edges_of_nodes this g inc ((k, n) # rest) =
     add_edges_of_nodes
       (case g_next_map g (n_id n) of
          None \<Rightarrow> this
        | Some es \<Rightarrow> add_included_edges this inc (n_id n) es)
       g inc rest"

definition build_derived_edges ::
  "iteration \<Rightarrow> graph \<Rightarrow> graph \<Rightarrow> (int \<times> node) list \<Rightarrow> error + graph" where
  "build_derived_edges iter this g inc =
     (let this1 = add_edges_of_nodes this g inc (iter inc)
      in if map_of inc (g_root g) = None then Inl InvalidDerivation
         else Inr (this1\<lparr>g_root := g_root g\<rparr>))"

text \<open>
  \<^verbatim>\<open>for (int i = _add_order.size() - 1; i >= 0; --i)
    if (includedNodes.count(_add_order[i]) == 0) _add_order.erase(_add_order.begin() + i);\<close>
  The third argument is \<open>i + 1\<close>.
\<close>

fun erase_excluded :: "int list \<Rightarrow> (int \<times> node) list \<Rightarrow> nat \<Rightarrow> int list" where
  "erase_excluded xs inc 0 = xs"
| "erase_excluded xs inc (Suc i) =
     erase_excluded
       (if map_of inc (xs ! i) = None then take i xs @ drop (Suc i) xs else xs) inc i"

text \<open>The text appended to the description: one \<^verbatim>\<open>"1,"\<close> or \<^verbatim>\<open>"0,"\<close> for each filter bit.\<close>

definition filter_desc :: "bool list \<Rightarrow> string" where
  "filter_desc flt = concat (map (\<lambda>b. (if b then ''1'' else ''0'') @ '','') flt)"

text \<open>\<^verbatim>\<open>Graph(const Graph &g, const std::vector<bool> &filter)\<close>\<close>

definition Graph_filter :: "iteration \<Rightarrow> graph \<Rightarrow> bool list \<Rightarrow> error + graph" where
  "Graph_filter iter g flt =
     (case include_nodes (iter (g_IDMap g)) (filter_indexes flt) [] of
        Inl e \<Rightarrow> Inl e
      | Inr inc \<Rightarrow>
          (case build_derived_edges iter (derived_init g) g inc of
             Inl e \<Rightarrow> Inl e
           | Inr this1 \<Rightarrow>
               finalize
                 (this1\<lparr>g_add_order :=
                           erase_excluded (g_add_order g) inc (length (g_add_order g)),
                         g_desc := g_desc g @ ''\<newline>filter: '' @ filter_desc flt\<rparr>)))"

datatype Type = REF | MAXAF

text \<open>The loop of the \<^verbatim>\<open>REF\<close> branch over the entries of the node map.\<close>

fun ref_nodes :: "(int \<times> node) list \<Rightarrow> (int \<times> node) list \<Rightarrow> (int \<times> node) list" where
  "ref_nodes [] inc = inc"
| "ref_nodes ((k, n) # rest) inc =
     ref_nodes rest (if n_ref n then AList.update k n inc else inc)"

text \<open>
  The \<^verbatim>\<open>for\<close> loop of the \<^verbatim>\<open>MAXAF\<close> branch over the successors after the first one:
  a successor replaces \<open>maxid\<close> only when \<^verbatim>\<open>>\<close> on the two frequencies is true. Both
  \<^verbatim>\<open>at()\<close> calls throw when the id is not in the node map.
\<close>

fun max_af_loop :: "graph \<Rightarrow> int \<Rightarrow> int list \<Rightarrow> error + int" where
  "max_af_loop g maxid [] = Inr maxid"
| "max_af_loop g maxid (i # rest) =
     (case map_of (g_IDMap g) i of
        None \<Rightarrow> Inl OutOfRange
      | Some a \<Rightarrow>
          (case map_of (g_IDMap g) maxid of
             None \<Rightarrow> Inl OutOfRange
           | Some b \<Rightarrow>
               max_af_loop g (if float_gt (n_af a) (n_af b) then i else maxid) rest))"

text \<open>\<^verbatim>\<open>maxid = g._next_map.at(curr).at(0)\<close>, which throws on an empty vector, then the loop.\<close>

definition max_af_successor :: "graph \<Rightarrow> int list \<Rightarrow> error + int" where
  "max_af_successor g succs =
     (case succs of [] \<Rightarrow> Inl OutOfRange | m # rest \<Rightarrow> max_af_loop g m rest)"

text \<open>
  The \<^verbatim>\<open>while (true)\<close> loop of the \<^verbatim>\<open>MAXAF\<close> branch. It need not terminate (it does
  not on a cycle), so it is a partial function: \<open>None\<close> is the loop that never ends.
\<close>

partial_function (option) maxaf_walk ::
  "graph \<Rightarrow> int \<Rightarrow> (int \<times> node) list \<Rightarrow> (error + (int \<times> node) list) option" where
  "maxaf_walk g cur inc =
     (case map_of (g_IDMap g) cur of
        None \<Rightarrow> Some (Inl OutOfRange)
      | Some n \<Rightarrow>
          (case g_next_map g cur of
             None \<Rightarrow> Some (Inr (AList.update cur n inc))
           | Some succs \<Rightarrow>
               (case max_af_successor g succs of
                  Inl e \<Rightarrow> Some (Inl e)
                | Inr maxid \<Rightarrow> maxaf_walk g maxid (AList.update cur n inc))))"

declare maxaf_walk.simps [code]

text \<open>The common tail of \<^verbatim>\<open>Graph(const Graph &g, Type type)\<close>, after the description is set.\<close>

definition derive_from ::
  "iteration \<Rightarrow> graph \<Rightarrow> (int \<times> node) list \<Rightarrow> string \<Rightarrow> error + graph" where
  "derive_from iter g inc d =
     (case build_derived_edges iter ((derived_init g)\<lparr>g_desc := d\<rparr>) g inc of
        Inl e \<Rightarrow> Inl e
      | Inr this1 \<Rightarrow>
          finalize
            (this1\<lparr>g_add_order :=
                      erase_excluded (g_add_order g) inc (length (g_add_order g))\<rparr>))"

text \<open>\<^verbatim>\<open>Graph(const Graph &g, Type type)\<close>; \<open>None\<close> when the walk does not terminate.\<close>

definition Graph_type :: "iteration \<Rightarrow> graph \<Rightarrow> Type \<Rightarrow> (error + graph) option" where
  "Graph_type iter g type =
     (case type of
        REF \<Rightarrow>
          Some (derive_from iter g (ref_nodes (iter (g_IDMap g)) [])
                  (g_desc g @ ''\<newline>filter: REF''))
      | MAXAF \<Rightarrow>
          (case maxaf_walk g (g_root g) [] of
             None \<Rightarrow> None
           | Some (Inl e) \<Rightarrow> Some (Inl e)
           | Some (Inr inc) \<Rightarrow>
               Some (derive_from iter g inc (g_desc g @ ''\<newline>filter: MAXAF''))))"

subsection \<open>TopologicalIter\<close>

text \<open>The iterator holds a reference to its graph and an index.\<close>

record TopologicalIter =
  it_graph :: graph
  it_idx :: int

definition iter_eq :: "TopologicalIter \<Rightarrow> TopologicalIter \<Rightarrow> bool" where
  "iter_eq this other =
     (if g_toposort (it_graph other) \<noteq> g_toposort (it_graph this) then False
      else it_idx this = it_idx other)"

definition iter_neq :: "TopologicalIter \<Rightarrow> TopologicalIter \<Rightarrow> bool" where
  "iter_neq this other = (it_idx this \<noteq> it_idx other)"

subsection \<open>GraphBuilder\<close>

text \<open>The builder's configuration; the file handles play no part in \<^verbatim>\<open>ingroup\<close>.\<close>

record GraphBuilder =
  gb_fa_file :: string
  gb_vf_file :: string
  gb_ingroup :: int
  gb_max_node_len :: int

text \<open>\<^verbatim>\<open>GraphBuilder(reffile, vcffile)\<close> with the default member initialisers.\<close>

definition GraphBuilder_new :: "string \<Rightarrow> string \<Rightarrow> GraphBuilder" where
  "GraphBuilder_new reffile vcffile =
     \<lparr>gb_fa_file = reffile, gb_vf_file = vcffile, gb_ingroup = 100, gb_max_node_len = 1000000\<rparr>"

definition ingroup :: "GraphBuilder \<Rightarrow> int \<Rightarrow> GraphBuilder" where
  "ingroup gb percent =
     (if percent < 0 \<or> percent > 100 then gb else gb\<lparr>gb_ingroup := percent\<rparr>)"

section \<open>Graph definition files (src/gdef.cpp)\<close>

subsection \<open>Population bitsets\<close>

text \<open>
  Modelled from the spec: \<^verbatim>\<open>Graph::Population\<close> is \<^verbatim>\<open>dyn_bitset<32>\<close>, whose header
  (include/dyn_bitset.h) is not among the sources. The specification describes it as a
  fixed-width bitset with bitwise set operations and a population count; it is a list of
  bits here, whose length is the width.
\<close>

type_synonym Population = "bool list"

text \<open>Modelled from the spec: \<^verbatim>\<open>Population(n)\<close> and \<^verbatim>\<open>reset()\<close>, \<open>n\<close> clear bits.\<close>

definition pop_new :: "nat \<Rightarrow> Population" where
  "pop_new n = replicate n False"

text \<open>Modelled from the spec: \<^verbatim>\<open>set()\<close> sets every bit.\<close>

definition pop_set_all :: "Population \<Rightarrow> Population" where
  "pop_set_all p = replicate (length p) True"

text \<open>Modelled from the spec: \<^verbatim>\<open>set(i)\<close> sets bit \<open>i\<close>.\<close>

definition pop_set :: "Population \<Rightarrow> nat \<Rightarrow> Population" where
  "pop_set p i = p[i := True]"

text \<open>Modelled from the spec: \<^verbatim>\<open>count()\<close>, the number of set bits.\<close>

definition pop_count :: "Population \<Rightarrow> nat" where
  "pop_count p = length (filter (\<lambda>b. b) p)"

text \<open>Modelled from the spec: the bitwise operators \<^verbatim>\<open>~\<close>, \<^verbatim>\<open>&\<close> and \<^verbatim>\<open>|\<close>.\<close>

definition pop_not :: "Population \<Rightarrow> Population" where
  "pop_not p = map Not p"

definition pop_and :: "Population \<Rightarrow> Population \<Rightarrow> Population" where
  "pop_and p q = map2 (\<and>) p q"

definition pop_or :: "Population \<Rightarrow> Population \<Rightarrow> Population" where
  "pop_or p q = map2 (\<or>) p q"

text \<open>
  The failures of the loop of \<^verbatim>\<open>GraphManager::write\<close>: its three
  \<^verbatim>\<open>std::invalid_argument\<close> exceptions (parent not yet defined; a negative graph defined
  explicitly; not enough samples), the \<^verbatim>\<open>std::out_of_range\<close> of \<^verbatim>\<open>at()\<close> on the label
  and on a bitset, and the undefined \<^verbatim>\<open>rand() % 0\<close>.
\<close>

datatype gdef_error =
  ParentUndefined | ReservedName | InsufficientPopulation | LabelOutOfRange
  | BitOutOfRange | ModuloByZero

text \<open>Modelled from the spec: \<^verbatim>\<open>at(j)\<close> reads bit \<open>j\<close> of the bitset, inside its width.\<close>

definition pop_at :: "Population \<Rightarrow> nat \<Rightarrow> gdef_error + bool" where
  "pop_at p j = (if j < length p then Inr (p ! j) else Inl BitOutOfRange)"

subsection \<open>Writing the populations\<close>

text \<open>
  Modelled from the spec: the constants of gdef.h, which is not among the sources. Labels
  are paths rooted at the literal \<open>B\<close>, separated by \<open>/\<close>; a leading \<open>~\<close> marks the negation.
\<close>

definition GDEF_BASE :: string where
  "GDEF_BASE = ''B''"

definition GDEF_SCOPE :: char where
  "GDEF_SCOPE = CHR ''/''"

definition GDEF_NEGATE :: char where
  "GDEF_NEGATE = CHR ''~''"

text \<open>
  The right-hand side of a definition after \<^verbatim>\<open>std::stoi\<close>: a count, or a percentage when
  the text ends in \<open>%\<close>. Splitting the definitions text into pairs is done by \<^verbatim>\<open>split\<close>,
  which is not among the sources; the definitions are taken as pairs of a name and an amount.
\<close>

datatype amount = Count int | Percent int

text \<open>
  \<^verbatim>\<open>for (int j = 0; j < nsamps; ++j) if (populations.at(parent).at(j)) avail_set.push_back(j);\<close>
\<close>

fun avail_indexes :: "Population \<Rightarrow> nat list \<Rightarrow> nat list \<Rightarrow> gdef_error + nat list" where
  "avail_indexes p [] avail_set = Inr avail_set"
| "avail_indexes p (j # js) avail_set =
     (case pop_at p j of
        Inl e \<Rightarrow> Inl e
      | Inr b \<Rightarrow> avail_indexes p js (if b then avail_set @ [j] else avail_set))"

text \<open>
  The sampling loop \<^verbatim>\<open>for (size_t k = 0; k < count;) { r = rand() % avail_set.size(); ... }\<close>.
  The first argument holds the successive results of \<^verbatim>\<open>rand()\<close>. The loop has no bound on
  its iterations; the result is \<open>None\<close> when the given results are used up while the loop is
  still running. The unused results are returned with the population.
\<close>

fun sample ::
  "nat list \<Rightarrow> nat list \<Rightarrow> nat \<Rightarrow> nat \<Rightarrow> nat set \<Rightarrow> Population
     \<Rightarrow> (gdef_error + Population \<times> nat list) option" where
  "sample [] avail_set cnt k added pop =
     (if k < cnt then None else Some (Inr (pop, [])))"
| "sample (d # rest) avail_set cnt k added pop =
     (if k < cnt then
        (if avail_set = [] then Some (Inl ModuloByZero)
         else
           let r = d mod length avail_set in
           if avail_set ! r \<notin> added
           then sample rest avail_set cnt (Suc k) (insert (avail_set ! r) added)
                  (pop_set pop (avail_set ! r))
           else sample rest avail_set cnt k added pop)
      else Some (Inr (pop, d # rest)))"

text \<open>
  \<^verbatim>\<open>find_last_of\<close> on a string that contains the character (the label always contains
  the separator, so \<^verbatim>\<open>npos\<close> does not arise).
\<close>

definition find_last_of :: "string \<Rightarrow> char \<Rightarrow> nat" where
  "find_last_of s c = length s - 1 - length (takeWhile (\<lambda>x. x \<noteq> c) (rev s))"

text \<open>
  The body of the loop \<^verbatim>\<open>for (auto def : defs)\<close> for one definition. The state is the map
  \<^verbatim>\<open>populations\<close> and the results of \<^verbatim>\<open>rand()\<close> that are still unused. A percentage is
  resolved in \<^verbatim>\<open>double\<close> arithmetic and truncated, which is left to the parameter
  \<open>percent_count\<close> (from the parent's population count and the percentage to the count).
  The count is then stored in a \<^verbatim>\<open>size_t\<close>, so a negative one exceeds every population
  count.
\<close>

definition process_def ::
  "(nat \<Rightarrow> int \<Rightarrow> int) \<Rightarrow> nat \<Rightarrow> (string \<rightharpoonup> Population) \<times> nat list \<Rightarrow> string \<times> amount
     \<Rightarrow> (gdef_error + (string \<rightharpoonup> Population) \<times> nat list) option" where
  "process_def percent_count nsamps st d =
     (let populations = fst st;
          pop = pop_new nsamps;
          label = GDEF_BASE @ GDEF_SCOPE # fst d;
          parent_end = find_last_of label GDEF_SCOPE;
          parent = take parent_end label
      in case populations parent of
           None \<Rightarrow> Some (Inl ParentUndefined)
         | Some ppop \<Rightarrow>
             if \<not> parent_end + 1 < length label then Some (Inl LabelOutOfRange)
             else if label ! (parent_end + 1) = CHR ''~'' then Some (Inl ReservedName)
             else
               let cnt = (case snd d of
                            Percent pc \<Rightarrow> percent_count (pop_count ppop) pc
                          | Count c \<Rightarrow> c)
               in if cnt < 0 \<or> nat cnt > pop_count ppop then Some (Inl InsufficientPopulation)
                  else
                    (case avail_indexes ppop [0..<nsamps] [] of
                       Inl e \<Rightarrow> Some (Inl e)
                     | Inr avail_set \<Rightarrow>
                         (case sample (snd st) avail_set (nat cnt) 0 {} pop of
                            None \<Rightarrow> None
                          | Some (Inl e) \<Rightarrow> Some (Inl e)
                          | Some (Inr (pop', draws')) \<Rightarrow>
                              let leaf = drop (parent_end + 1) label;
                                  populations1 = populations(parent @ GDEF_SCOPE # leaf \<mapsto> pop')
                              in (case populations1 parent of
                                    None \<Rightarrow> Some (Inl LabelOutOfRange)
                                  | Some ppop1 \<Rightarrow>
                                      Some (Inr (populations1
                                        (parent @ GDEF_SCOPE # GDEF_NEGATE # leaf \<mapsto>
                                           pop_and (pop_not pop') ppop1),
                                        draws'))))))"

text \<open>The loop over the definitions; an exception ends it.\<close>

fun process_defs ::
  "(nat \<Rightarrow> int \<Rightarrow> int) \<Rightarrow> nat \<Rightarrow> (string \<rightharpoonup> Population) \<times> nat list
     \<Rightarrow> (string \<times> amount) list
     \<Rightarrow> (gdef_error + (string \<rightharpoonup> Population) \<times> nat list) option" where
  "process_defs percent_count nsamps st [] = Some (Inr st)"
| "process_defs percent_count nsamps st (d # ds) =
     (case process_def percent_count nsamps st d of
        None \<Rightarrow> None
      | Some (Inl e) \<Rightarrow> Some (Inl e)
      | Some (Inr st') \<Rightarrow> process_defs percent_count nsamps st' ds)"

text \<open>The base graph \<open>B\<close> uses the full filter.\<close>

definition base_populations :: "nat \<Rightarrow> (string \<rightharpoonup> Population)" where
  "base_populations nsamps = [GDEF_BASE \<mapsto> pop_set_all (pop_new nsamps)]"

text \<open>
  The part of \<^verbatim>\<open>GraphManager::write\<close> that computes \<^verbatim>\<open>populations\<close>, from the sample
  count, the definitions and the results of \<^verbatim>\<open>rand()\<close>. Writing the text out and reading
  it back play no part in the populations.
\<close>

definition write_populations ::
  "(nat \<Rightarrow> int \<Rightarrow> int) \<Rightarrow> nat \<Rightarrow> (string \<times> amount) list \<Rightarrow> nat list
     \<Rightarrow> (gdef_error + (string \<rightharpoonup> Population) \<times> nat list) option" where
  "write_populations percent_count nsamps defs draws =
     process_defs percent_count nsamps (base_populations nsamps, draws) defs"

section \<open>Concrete graphs and populations used below\<close>

definition mk_node :: "int \<Rightarrow> bool \<Rightarrow> real \<Rightarrow> bool list \<Rightarrow> node" where
  "mk_node i r f pop =
     \<lparr>n_endPos = 0, n_seq = [], n_individuals = pop, n_ref = r, n_af = Fin f, n_id = i\<rparr>"

text \<open>Three nodes \<open>0, 1, 2\<close> inserted in this order and the edges \<open>0\<rightarrow>1, 1\<rightarrow>2, 2\<rightarrow>0\<close>.\<close>

definition three_nodes :: graph where
  "three_nodes =
     snd (add_node (snd (add_node (snd (add_node Graph_default
       (mk_node 0 True 1 [])))
       (mk_node 1 True 1 [])))
       (mk_node 2 True 1 []))"

definition cycle3 :: graph where
  "cycle3 = snd (add_edge (snd (add_edge (snd (add_edge three_nodes 0 1)) 1 2)) 2 0)"

text \<open>Two nodes \<open>0, 1\<close> inserted in this order and the single edge \<open>1\<rightarrow>0\<close>.\<close>

definition back_edge :: graph where
  "back_edge =
     snd (add_edge (snd (add_node (snd (add_node Graph_default
       (mk_node 0 True 1 [])))
       (mk_node 1 True 1 []))) 1 0)"

text \<open>A finalized graph with the single node \<open>i\<close>, and an iterator on it at index 0.\<close>

definition single :: "int \<Rightarrow> graph" where
  "single i = projr (finalize (snd (add_node Graph_default (mk_node i True 1 []))))"

definition iter_at0 :: "int \<Rightarrow> TopologicalIter" where
  "iter_at0 i = \<lparr>it_graph = single i, it_idx = 0\<rparr>"

text \<open>
  The graph of the test case \<^verbatim>\<open>"Graph class"\<close> in graph.h: the reference nodes 0 (AAA),
  1 (CCC, frequency 0.4) and 3 (TTT), the variant node 2 (GGG, frequency 0.6), and the edges
  \<open>0\<rightarrow>1, 0\<rightarrow>2, 1\<rightarrow>3, 2\<rightarrow>3\<close>, finalized.
\<close>

definition node_AAA :: node where
  "node_AAA =
     \<lparr>n_endPos = 3, n_seq = seq_to_num ''AAA'', n_individuals = [False, True, True],
      n_ref = True, n_af = Fin 1, n_id = 0\<rparr>"

definition node_CCC :: node where
  "node_CCC =
     \<lparr>n_endPos = 6, n_seq = seq_to_num ''CCC'', n_individuals = [False, False, True],
      n_ref = True, n_af = Fin (4 / 10), n_id = 1\<rparr>"

definition node_GGG :: node where
  "node_GGG =
     \<lparr>n_endPos = 6, n_seq = seq_to_num ''GGG'', n_individuals = [False, True, False],
      n_ref = False, n_af = Fin (6 / 10), n_id = 2\<rparr>"

definition node_TTT :: node where
  "node_TTT =
     \<lparr>n_endPos = 9, n_seq = seq_to_num ''TTT'', n_individuals = [False, True, True],
      n_ref = True, n_af = Fin 1, n_id = 3\<rparr>"

definition test_nodes :: "node list" where
  "test_nodes = [node_AAA, node_CCC, node_GGG, node_TTT]"

definition test_graph :: graph where
  "test_graph =
     projr (finalize
       (fold (\<lambda>e g. snd (add_edge g (fst e) (snd e))) [(0, 1), (0, 2), (1, 3), (2, 3)]
          (fold (\<lambda>n g. snd (add_node g n)) test_nodes Graph_default)))"

text \<open>
  Three nodes inserted in topological order, with the frequencies 1, 0.6 and 0.4, and the
  edges \<open>0\<rightarrow>1, 0\<rightarrow>2, 1\<rightarrow>2\<close>, finalized.
\<close>

definition skip_dag :: graph where
  "skip_dag =
     projr (finalize
       (fold (\<lambda>e g. snd (add_edge g (fst e) (snd e))) [(0, 1), (0, 2), (1, 2)]
          (fold (\<lambda>n g. snd (add_node g n))
             [mk_node 0 True 1 [True], mk_node 1 False (6 / 10) [True],
              mk_node 2 True (4 / 10) [True]]
             Graph_default)))"

text \<open>
  The definitions \<open>sub1=2; sub1/leaf=50%\<close> over six haplotypes. For a parent with two set
  bits, fifty percent is one (in \<^verbatim>\<open>double\<close> arithmetic \<open>2 / 100 * 50\<close> is 1 as well). With
  the \<^verbatim>\<open>rand()\<close> results \<open>3, 3, 10\<close> the first definition picks the bits 3 and 4, with the
  result \<open>1\<close> the second one picks bit 4.
\<close>

definition floor_percent :: "nat \<Rightarrow> int \<Rightarrow> int" where
  "floor_percent c p = (int c * p) div 100"

definition sub1_populations :: "string \<rightharpoonup> Population" where
  "sub1_populations =
     [''B'' \<mapsto> [True, True, True, True, True, True],
      ''B/sub1'' \<mapsto> [False, False, False, True, True, False],
      ''B/~sub1'' \<mapsto> [True, True, True, False, False, True]]"

definition leaf_populations :: "string \<rightharpoonup> Population" where
  "leaf_populations =
     sub1_populations
       (''B/sub1/leaf'' \<mapsto> [False, False, False, False, True, False],
        ''B/sub1/~leaf'' \<mapsto> [False, False, False, True, False, False])"

section \<open>Properties of an order\<close>

text \<open>Position of the first occurrence of \<open>x\<close> in a list (its length when absent).\<close>

fun index_of :: "int list \<Rightarrow> int \<Rightarrow> nat" where
  "index_of [] x = 0"
| "index_of (y # ys) x = (if x = y then 0 else Suc (index_of ys x))"

text \<open>\<open>u\<rightarrow>v\<close> is recorded in the forward adjacency map.\<close>

definition edge :: "graph \<Rightarrow> int \<Rightarrow> int \<Rightarrow> bool" where
  "edge g u v = (v \<in> set (adj (g_next_map g) u))"

text \<open>Every recorded edge goes from an earlier to a later position of the order.\<close>

definition edges_follow :: "int list \<Rightarrow> graph \<Rightarrow> bool" where
  "edges_follow xs g =
     (\<forall>u v. edge g u v \<longrightarrow>
        u \<in> set xs \<and> v \<in> set xs \<and> index_of xs u < index_of xs v)"

section \<open>Properties of graphs and derivations\<close>

text \<open>
  An iteration lists the entries of a map: each entry once, whatever the order.
\<close>

definition iteration_order :: "iteration \<Rightarrow> bool" where
  "iteration_order iter =
     (\<forall>al. distinct (map fst al) \<longrightarrow> set (iter al) = set al \<and> distinct (map fst (iter al)))"

text \<open>
  The node map has one entry for each key, stored under the id of its node (as \<open>add_node\<close>
  stores it).
\<close>

definition node_map_ok :: "(int \<times> node) list \<Rightarrow> bool" where
  "node_map_ok al = (distinct (map fst al) \<and> (\<forall>p \<in> set al. n_id (snd p) = fst p))"

text \<open>
  The adjacency entry of every node is a non-empty list of nodes of the node map (as
  \<open>add_edge\<close> leaves it).
\<close>

definition edges_ok :: "graph \<Rightarrow> bool" where
  "edges_ok g =
     (\<forall>p \<in> set (g_IDMap g).
        case g_next_map g (fst p) of
          None \<Rightarrow> True
        | Some es \<Rightarrow> es \<noteq> [] \<and> (\<forall>e \<in> set es. e \<in> fst ` set (g_IDMap g)))"

text \<open>
  The stronger property that \<open>add_node\<close> and \<open>add_edge\<close> maintain: only nodes of the
  node map have an adjacency entry.
\<close>

definition edges_closed :: "graph \<Rightarrow> bool" where
  "edges_closed g =
     (\<forall>u es. g_next_map g u = Some es \<longrightarrow>
        u \<in> fst ` set (g_IDMap g) \<and> es \<noteq> [] \<and> set es \<subseteq> fst ` set (g_IDMap g))"

text \<open>The reverse adjacency map records each edge as often as the forward map does.\<close>

definition adj_consistent :: "graph \<Rightarrow> bool" where
  "adj_consistent t =
     (\<forall>u v. count_list (adj (g_prev_map t) v) u = count_list (adj (g_next_map t) u) v)"

text \<open>
  The inclusion rule of the haplotype filter, in the words of the specification: a node is
  selected when it is a reference node or its haplotype bitset has a set bit at an index
  where the filter is true.
\<close>

definition selects :: "bool list \<Rightarrow> node \<Rightarrow> bool" where
  "selects flt n = (n_ref n \<or> (\<exists>p \<in> set (zip flt (n_individuals n)). fst p \<and> snd p))"

definition selected :: "bool list \<Rightarrow> graph \<Rightarrow> int \<Rightarrow> bool" where
  "selected flt g k = (case map_of (g_IDMap g) k of None \<Rightarrow> False | Some n \<Rightarrow> selects flt n)"

text \<open>
  Every true index of the filter lies inside the haplotype bitset of every node that is not
  a reference node, so that \<open>belongs\<close> never reads past the end of a bitset.
\<close>

definition filter_fits :: "bool list \<Rightarrow> graph \<Rightarrow> bool" where
  "filter_fits flt g =
     (\<forall>p \<in> set (g_IDMap g). n_ref (snd p) \<or>
        (\<forall>i \<in> set (filter_indexes flt). i < length (n_individuals (snd p))))"

text \<open>Every allele frequency of the graph is a finite number.\<close>

definition finite_afs :: "graph \<Rightarrow> bool" where
  "finite_afs g =
     (\<forall>p \<in> set (g_IDMap g). case n_af (snd p) of Fin r \<Rightarrow> True | _ \<Rightarrow> False)"

text \<open>
  The walk of the specification. The allele frequency of a node id, when it is a finite
  number; \<open>m\<close> is the successor with the greatest frequency, the first one in the adjacency
  list among equals; a path from its first node that takes this successor at each step and
  ends at a node without successors.
\<close>

definition af_of :: "graph \<Rightarrow> int \<Rightarrow> real" where
  "af_of g k =
     (case map_of (g_IDMap g) k of
        None \<Rightarrow> 0
      | Some n \<Rightarrow> (case n_af n of Fin r \<Rightarrow> r | _ \<Rightarrow> 0))"

definition first_greatest :: "graph \<Rightarrow> int list \<Rightarrow> int \<Rightarrow> bool" where
  "first_greatest g succs m =
     (m \<in> set succs \<and> (\<forall>x \<in> set succs. af_of g x \<le> af_of g m) \<and>
      (\<forall>x \<in> set (takeWhile (\<lambda>x. x \<noteq> m) succs). af_of g x < af_of g m))"

fun maxaf_path :: "graph \<Rightarrow> int list \<Rightarrow> bool" where
  "maxaf_path g [] = False"
| "maxaf_path g [u] = (g_next_map g u = None)"
| "maxaf_path g (u # v # rest) =
     (first_greatest g (adj (g_next_map g) u) v \<and> maxaf_path g (v # rest))"

text \<open>The included nodes after the walk has visited the ids \<open>ks\<close> in this order.\<close>

definition walk_nodes :: "graph \<Rightarrow> int list \<Rightarrow> (int \<times> node) list \<Rightarrow> (int \<times> node) list" where
  "walk_nodes g ks inc = fold (\<lambda>k. AList.update k (the (map_of (g_IDMap g) k))) ks inc"

text \<open>Every stored population has the width \<open>nsamps\<close>.\<close>

definition widths_ok :: "nat \<Rightarrow> (string \<rightharpoonup> Population) \<Rightarrow> bool" where
  "widths_ok nsamps populations = (\<forall>k p. populations k = Some p \<longrightarrow> length p = nsamps)"

section \<open>Theorems\<close>

subsection \<open>Codec\<close>

lemma base_to_num_le: "base_to_num c \<le> 4"
  by (simp add: base_to_num_def)

lemma base_to_num_to_base:
  "x \<le> 4 \<Longrightarrow> base_to_num (num_to_base x) = x"
proof -
  assume "x \<le> 4"
  then have "unat x \<le> 4" by (simp add: word_le_nat_alt)
  then have "unat x = 0 \<or> unat x = 1 \<or> unat x = 2 \<or> unat x = 3 \<or> unat x = 4" by arith
  then have "x = 0 \<or> x = 1 \<or> x = 2 \<or> x = 3 \<or> x = 4"
    by (auto simp: word_unat_eq_iff)
  then show ?thesis
    by (auto simp: base_to_num_def num_to_base_def)
qed

lemma num_to_base_alphabet:
  "num_to_base x \<in> {CHR ''A'', CHR ''C'', CHR ''G'', CHR ''T'', CHR ''N''}"
  by (simp add: num_to_base_def)

lemma num_to_base_to_num:
  "c \<in> {CHR ''A'', CHR ''C'', CHR ''G'', CHR ''T'', CHR ''N''} \<Longrightarrow>
   num_to_base (base_to_num c) = c"
  by (auto simp: base_to_num_def num_to_base_def)

text \<open>
  C6: the codec round-trips. On numeric sequences over \<open>{0..4}\<close>, \<open>seq_to_num\<close> after
  \<open>num_to_seq\<close> is the identity; on any string, \<open>num_to_seq\<close> after \<open>seq_to_num\<close> gives a
  string over the upper-case letters A, C, G, T, N, is the identity on strings that are
  already over these letters, and is idempotent.
\<close>

theorem codec_round_trip:
  "((\<forall>x \<in> set num. x \<le> 4) \<longrightarrow> seq_to_num (num_to_seq num) = num) \<and>
   set (num_to_seq (seq_to_num s)) \<subseteq> {CHR ''A'', CHR ''C'', CHR ''G'', CHR ''T'', CHR ''N''} \<and>
   (set s \<subseteq> {CHR ''A'', CHR ''C'', CHR ''G'', CHR ''T'', CHR ''N''} \<longrightarrow>
      num_to_seq (seq_to_num s) = s) \<and>
   num_to_seq (seq_to_num (num_to_seq (seq_to_num s))) = num_to_seq (seq_to_num s)"
proof (intro conjI impI)
  assume "\<forall>x \<in> set num. x \<le> 4"
  then show "seq_to_num (num_to_seq num) = num"
    by (simp add: seq_to_num_def num_to_seq_def base_to_num_to_base map_idI)
next
  show alph: "set (num_to_seq (seq_to_num s))
      \<subseteq> {CHR ''A'', CHR ''C'', CHR ''G'', CHR ''T'', CHR ''N''}"
    using num_to_base_alphabet by (auto simp: seq_to_num_def num_to_seq_def)
next
  assume "set s \<subseteq> {CHR ''A'', CHR ''C'', CHR ''G'', CHR ''T'', CHR ''N''}"
  then have "\<forall>c \<in> set s. num_to_base (base_to_num c) = c"
    using num_to_base_to_num by blast
  then show "num_to_seq (seq_to_num s) = s"
    by (simp add: seq_to_num_def num_to_seq_def map_idI)
next
  have "\<forall>c \<in> set s. base_to_num (num_to_base (base_to_num c)) = base_to_num c"
    by (simp add: base_to_num_le base_to_num_to_base)
  then show "num_to_seq (seq_to_num (num_to_seq (seq_to_num s))) = num_to_seq (seq_to_num s)"
    by (simp add: seq_to_num_def num_to_seq_def)
qed

theorem codec_round_trip_witness:
  "seq_to_num (num_to_seq [0, 1, 2, 3, 4]) = [0, 1, 2, 3, 4] \<and>
   num_to_seq (seq_to_num ''acgtxACGTN'') = ''ACGTNACGTN'' \<and>
   num_to_seq (seq_to_num ''GATTACAN'') = ''GATTACAN''"
proof -
  have a: "\<forall>x \<in> set [0, 1, 2, 3, 4 :: Base]. x \<le> 4" by simp
  have b: "set ''GATTACAN'' \<subseteq> {CHR ''A'', CHR ''C'', CHR ''G'', CHR ''T'', CHR ''N''}"
    by simp
  have c: "num_to_seq (seq_to_num ''acgtxACGTN'') = ''ACGTNACGTN''"
    by (simp add: seq_to_num_def num_to_seq_def base_to_num_def num_to_base_def)
  from codec_round_trip [of "[0, 1, 2, 3, 4]" "''GATTACAN''"] a b c
  show ?thesis by blast
qed

subsection \<open>Adding nodes and edges\<close>

lemma absent_iff: "k \<notin> fst ` set al \<longleftrightarrow> map_of al k = None"
  by (simp add: map_of_eq_None_iff)

text \<open>
  C7: when \<open>u\<close> or \<open>v\<close> is absent from the node map, \<open>add_edge\<close> returns false and the
  graph is unchanged; otherwise it appends \<open>v\<close> to \<open>next[u]\<close> and \<open>u\<close> to \<open>prev[v]\<close>,
  clears the cached topological order, changes nothing else, and returns true.
\<close>

theorem add_edge_spec:
  "((u \<notin> fst ` set (g_IDMap g) \<or> v \<notin> fst ` set (g_IDMap g)) \<longrightarrow>
      add_edge g u v = (False, g)) \<and>
   ((u \<in> fst ` set (g_IDMap g) \<and> v \<in> fst ` set (g_IDMap g)) \<longrightarrow>
      add_edge g u v =
        (True, g\<lparr>g_next_map := (g_next_map g)(u \<mapsto> adj (g_next_map g) u @ [v]),
                 g_prev_map := (g_prev_map g)(v \<mapsto> adj (g_prev_map g) v @ [u]),
                 g_toposort := []\<rparr>))"
proof (intro conjI impI)
  assume "u \<notin> fst ` set (g_IDMap g) \<or> v \<notin> fst ` set (g_IDMap g)"
  then have "map_of (g_IDMap g) u = None \<or> map_of (g_IDMap g) v = None"
    by (simp add: absent_iff)
  then show "add_edge g u v = (False, g)"
    by (simp add: add_edge_def)
next
  assume "u \<in> fst ` set (g_IDMap g) \<and> v \<in> fst ` set (g_IDMap g)"
  then have ok: "\<not> (map_of (g_IDMap g) u = None \<or> map_of (g_IDMap g) v = None)"
    using absent_iff [of u "g_IDMap g"] absent_iff [of v "g_IDMap g"] by blast
  have n: "(if g_next_map g u = None then (g_next_map g)(u \<mapsto> []) else g_next_map g)
             (u \<mapsto> adj (if g_next_map g u = None then (g_next_map g)(u \<mapsto> [])
                          else g_next_map g) u @ [v])
           = (g_next_map g)(u \<mapsto> adj (g_next_map g) u @ [v])"
    by (auto simp: adj_def)
  have p: "(if g_prev_map g v = None then (g_prev_map g)(v \<mapsto> []) else g_prev_map g)
             (v \<mapsto> adj (if g_prev_map g v = None then (g_prev_map g)(v \<mapsto> [])
                          else g_prev_map g) v @ [u])
           = (g_prev_map g)(v \<mapsto> adj (g_prev_map g) v @ [u])"
    by (auto simp: adj_def)
  show "add_edge g u v =
        (True, g\<lparr>g_next_map := (g_next_map g)(u \<mapsto> adj (g_next_map g) u @ [v]),
                 g_prev_map := (g_prev_map g)(v \<mapsto> adj (g_prev_map g) v @ [u]),
                 g_toposort := []\<rparr>)"
    unfolding add_edge_def Let_def using ok n p by simp
qed

lemma three_nodes_fields:
  "g_IDMap three_nodes =
     [(0, mk_node 0 True 1 []), (1, mk_node 1 True 1 []), (2, mk_node 2 True 1 [])]"
  "g_add_order three_nodes = [0, 1, 2]"
  "g_root three_nodes = 0"
  "g_next_map three_nodes = Map.empty"
  "g_prev_map three_nodes = Map.empty"
  "g_toposort three_nodes = []"
  by (simp_all add: three_nodes_def add_node_def Graph_default_def mk_node_def Let_def)

theorem add_edge_spec_witness:
  "add_edge three_nodes 0 7 = (False, three_nodes) \<and>
   fst (add_edge three_nodes 0 1) = True \<and>
   g_next_map (snd (add_edge three_nodes 0 1)) 0 = Some [1] \<and>
   g_prev_map (snd (add_edge three_nodes 0 1)) 1 = Some [0] \<and>
   g_toposort (snd (add_edge three_nodes 0 1)) = []"
proof -
  have a: "(0::int) \<notin> fst ` set (g_IDMap three_nodes) \<or> 7 \<notin> fst ` set (g_IDMap three_nodes)"
    by (simp add: three_nodes_fields)
  have b: "(0::int) \<in> fst ` set (g_IDMap three_nodes) \<and> 1 \<in> fst ` set (g_IDMap three_nodes)"
    by (simp add: three_nodes_fields)
  from add_edge_spec [of 0 three_nodes 7] a
  have 1: "add_edge three_nodes 0 7 = (False, three_nodes)" by blast
  from add_edge_spec [of 0 three_nodes 1] b
  have 2: "add_edge three_nodes 0 1 =
        (True, three_nodes\<lparr>g_next_map := (g_next_map three_nodes)(0 \<mapsto> adj (g_next_map three_nodes) 0 @ [1]),
                 g_prev_map := (g_prev_map three_nodes)(1 \<mapsto> adj (g_prev_map three_nodes) 1 @ [0]),
                 g_toposort := []\<rparr>)" by blast
  show ?thesis
    unfolding 1 2 by (simp add: three_nodes_fields adj_def)
qed

text \<open>
  C8: \<open>add_node n\<close> returns the sentinel 0 and leaves the graph unchanged when a node
  with the id of \<open>n\<close> is present; otherwise it returns the id of \<open>n\<close>, stores the copy of
  \<open>n\<close> under that id, appends the id to the insertion order and leaves the adjacency maps
  alone. The first node inserted into a new graph becomes its root.
\<close>

theorem add_node_spec:
  "(n_id n \<in> fst ` set (g_IDMap g) \<longrightarrow> add_node g n = (0, g)) \<and>
   (n_id n \<notin> fst ` set (g_IDMap g) \<longrightarrow>
      fst (add_node g n) = n_id n \<and>
      map_of (g_IDMap (snd (add_node g n))) = (map_of (g_IDMap g))(n_id n \<mapsto> n) \<and>
      g_add_order (snd (add_node g n)) = g_add_order g @ [n_id n] \<and>
      g_root (snd (add_node g n)) = (if g_root g < 0 then n_id n else g_root g) \<and>
      g_next_map (snd (add_node g n)) = g_next_map g \<and>
      g_prev_map (snd (add_node g n)) = g_prev_map g \<and>
      g_toposort (snd (add_node g n)) = g_toposort g) \<and>
   add_node Graph_default n =
     (n_id n, Graph_default\<lparr>g_root := n_id n, g_IDMap := [(n_id n, n)],
                              g_add_order := [n_id n]\<rparr>)"
proof (intro conjI impI)
  assume "n_id n \<in> fst ` set (g_IDMap g)"
  then have "map_of (g_IDMap g) (n_id n) \<noteq> None"
    using absent_iff [of "n_id n" "g_IDMap g"] by blast
  then show "add_node g n = (0, g)"
    by (simp add: add_node_def)
next
  assume "n_id n \<notin> fst ` set (g_IDMap g)"
  then have a: "map_of (g_IDMap g) (n_id n) = None"
    by (simp add: absent_iff)
  show "fst (add_node g n) = n_id n"
    using a by (simp add: add_node_def Let_def)
  show "map_of (g_IDMap (snd (add_node g n))) = (map_of (g_IDMap g))(n_id n \<mapsto> n)"
    using a by (auto simp: add_node_def Let_def map_add_def fun_eq_iff split: option.splits)
  show "g_add_order (snd (add_node g n)) = g_add_order g @ [n_id n]"
    using a by (simp add: add_node_def Let_def)
  show "g_root (snd (add_node g n)) = (if g_root g < 0 then n_id n else g_root g)"
    using a by (simp add: add_node_def Let_def)
  show "g_next_map (snd (add_node g n)) = g_next_map g"
    using a by (simp add: add_node_def Let_def)
  show "g_prev_map (snd (add_node g n)) = g_prev_map g"
    using a by (simp add: add_node_def Let_def)
  show "g_toposort (snd (add_node g n)) = g_toposort g"
    using a by (simp add: add_node_def Let_def)
next
  show "add_node Graph_default n =
     (n_id n, Graph_default\<lparr>g_root := n_id n, g_IDMap := [(n_id n, n)],
                              g_add_order := [n_id n]\<rparr>)"
    by (simp add: add_node_def Graph_default_def Let_def)
qed

theorem add_node_spec_witness:
  "add_node three_nodes (mk_node 1 False 0 [True]) = (0, three_nodes) \<and>
   fst (add_node three_nodes (mk_node 5 False 0 [True])) = 5 \<and>
   g_add_order (snd (add_node three_nodes (mk_node 5 False 0 [True]))) = [0, 1, 2, 5] \<and>
   g_root (snd (add_node three_nodes (mk_node 5 False 0 [True]))) = 0 \<and>
   g_root (snd (add_node Graph_default (mk_node 5 False 0 [True]))) = 5"
proof -
  have a: "n_id (mk_node 1 False 0 [True]) \<in> fst ` set (g_IDMap three_nodes)"
    by (simp add: three_nodes_fields mk_node_def)
  have b: "n_id (mk_node 5 False 0 [True]) \<notin> fst ` set (g_IDMap three_nodes)"
    by (simp add: three_nodes_fields mk_node_def)
  have c: "n_id (mk_node 5 False 0 [True]) = 5"
    by (simp add: mk_node_def)
  from add_node_spec [of "mk_node 1 False 0 [True]" three_nodes] a
  have 1: "add_node three_nodes (mk_node 1 False 0 [True]) = (0, three_nodes)" by blast
  from add_node_spec [of "mk_node 5 False 0 [True]" three_nodes] b
  have 2: "fst (add_node three_nodes (mk_node 5 False 0 [True])) = n_id (mk_node 5 False 0 [True])"
    and 3: "g_add_order (snd (add_node three_nodes (mk_node 5 False 0 [True])))
            = g_add_order three_nodes @ [n_id (mk_node 5 False 0 [True])]"
    and 4: "g_root (snd (add_node three_nodes (mk_node 5 False 0 [True])))
            = (if g_root three_nodes < 0 then n_id (mk_node 5 False 0 [True])
               else g_root three_nodes)"
    and 5: "add_node Graph_default (mk_node 5 False 0 [True]) =
            (n_id (mk_node 5 False 0 [True]),
             Graph_default\<lparr>g_root := n_id (mk_node 5 False 0 [True]),
                            g_IDMap := [(n_id (mk_node 5 False 0 [True]), mk_node 5 False 0 [True])],
                            g_add_order := [n_id (mk_node 5 False 0 [True])]\<rparr>)"
    by blast+
  show ?thesis
    unfolding 1 2 3 4 5 c by (simp add: three_nodes_fields)
qed

subsection \<open>Finalization\<close>

lemma cycle3_fields:
  "g_next_map cycle3 0 = Some [1]"
  "g_next_map cycle3 1 = Some [2]"
  "g_next_map cycle3 2 = Some [0]"
  "g_add_order cycle3 = [0, 1, 2]"
  by (simp_all add: cycle3_def add_edge_def three_nodes_fields adj_def Let_def)

text \<open>
  C1, as stated, fails: on the graph with the edges \<open>0\<rightarrow>1, 1\<rightarrow>2, 2\<rightarrow>0\<close>, \<open>finalize\<close>
  succeeds and publishes the insertion order.
\<close>

theorem finalize_cycle3_succeeds:
  "g_next_map cycle3 0 = Some [1] \<and> g_next_map cycle3 1 = Some [2] \<and>
   g_next_map cycle3 2 = Some [0] \<and>
   finalize cycle3 = Inr (cycle3\<lparr>g_toposort := [0, 1, 2]\<rparr>) \<and>
   finalize cycle3 \<noteq> Inl CycleDetected"
  by (simp add: cycle3_fields finalize_def)

text \<open>
  C1, amended: \<open>finalize\<close> runs no depth-first sort. On every graph, cyclic or not, it
  succeeds, publishes the insertion order as the topological order and changes nothing
  else; it never fails with \<open>CycleDetected\<close>.
\<close>

theorem finalize_adopts_insertion_order:
  "finalize g = Inr (g\<lparr>g_toposort := g_add_order g\<rparr>) \<and> finalize g \<noteq> Inl e"
  by (simp add: finalize_def)

theorem finalize_adopts_insertion_order_witness:
  "finalize three_nodes = Inr (three_nodes\<lparr>g_toposort := [0, 1, 2]\<rparr>) \<and>
   finalize three_nodes \<noteq> Inl CycleDetected"
  using finalize_adopts_insertion_order [of three_nodes CycleDetected]
  by (simp add: three_nodes_fields)

lemma back_edge_fields:
  "g_next_map back_edge 1 = Some [0]"
  "g_add_order back_edge = [0, 1]"
  by (simp_all add: back_edge_def add_edge_def add_node_def Graph_default_def mk_node_def
      adj_def Let_def)

text \<open>
  C2, as stated, fails: after \<open>finalize\<close>, the graph with the nodes \<open>0, 1\<close> (inserted in
  this order) and the edge \<open>1\<rightarrow>0\<close> has node 1 at position 1 and node 0 at position 0.
\<close>

theorem finalize_back_edge_unordered:
  "edge (projr (finalize back_edge)) 1 0 \<and>
   index_of (g_toposort (projr (finalize back_edge))) 1 = 1 \<and>
   index_of (g_toposort (projr (finalize back_edge))) 0 = 0 \<and>
   \<not> index_of (g_toposort (projr (finalize back_edge))) 1
       < index_of (g_toposort (projr (finalize back_edge))) 0"
  by (simp add: finalize_def edge_def adj_def back_edge_fields)

lemma index_of_append:
  "u \<in> set xs \<Longrightarrow> index_of (xs @ ys) u = index_of xs u"
  by (induction xs) auto

lemma edges_follow_default: "edges_follow [] Graph_default"
  by (simp add: edges_follow_def edge_def adj_def Graph_default_def)

lemma edges_follow_add_node:
  assumes "edges_follow (g_add_order g) g"
  shows "edges_follow (g_add_order (snd (add_node g n))) (snd (add_node g n))"
proof (cases "map_of (g_IDMap g) (n_id n) = None")
  case False
  then show ?thesis using assms by (simp add: add_node_def)
next
  case True
  then have o: "g_add_order (snd (add_node g n)) = g_add_order g @ [n_id n]"
    and e: "g_next_map (snd (add_node g n)) = g_next_map g"
    by (simp_all add: add_node_def Let_def)
  show ?thesis
    unfolding edges_follow_def o
  proof (intro allI impI)
    fix u v
    assume "edge (snd (add_node g n)) u v"
    then have "edge g u v" by (simp add: edge_def e)
    with assms have "u \<in> set (g_add_order g)" "v \<in> set (g_add_order g)"
      "index_of (g_add_order g) u < index_of (g_add_order g) v"
      by (auto simp: edges_follow_def)
    then show "u \<in> set (g_add_order g @ [n_id n]) \<and> v \<in> set (g_add_order g @ [n_id n]) \<and>
        index_of (g_add_order g @ [n_id n]) u < index_of (g_add_order g @ [n_id n]) v"
      by (simp add: index_of_append)
  qed
qed

lemma edges_follow_add_edge:
  assumes "edges_follow (g_add_order g) g"
    and "u \<in> set (g_add_order g)" and "v \<in> set (g_add_order g)"
    and "index_of (g_add_order g) u < index_of (g_add_order g) v"
  shows "edges_follow (g_add_order (snd (add_edge g u v))) (snd (add_edge g u v))"
proof (cases "map_of (g_IDMap g) u = None \<or> map_of (g_IDMap g) v = None")
  case True
  then show ?thesis using assms(1) by (simp add: add_edge_def)
next
  case False
  then have o: "g_add_order (snd (add_edge g u v)) = g_add_order g"
    and e: "g_next_map (snd (add_edge g u v)) = (g_next_map g)(u \<mapsto> adj (g_next_map g) u @ [v])"
    by (auto simp: add_edge_def Let_def adj_def)
  have "edge (snd (add_edge g u v)) a b \<Longrightarrow> edge g a b \<or> (a = u \<and> b = v)" for a b
    by (auto simp: edge_def e adj_def split: if_splits)
  then show ?thesis
    using assms unfolding edges_follow_def o by blast
qed

text \<open>
  C2, amended: when the nodes were inserted in topological order (every recorded edge
  \<open>u\<rightarrow>v\<close> has \<open>u\<close> before \<open>v\<close> in the insertion order), then after \<open>finalize\<close> every edge
  \<open>u\<rightarrow>v\<close> of the forward adjacency map has \<open>u\<close> strictly before \<open>v\<close> in the cached
  topological order.
\<close>

theorem finalize_order_follows_edges:
  assumes "edges_follow (g_add_order g) g" and "finalize g = Inr g'"
  shows "\<forall>u v. edge g' u v \<longrightarrow>
           u \<in> set (g_toposort g') \<and> v \<in> set (g_toposort g') \<and>
           index_of (g_toposort g') u < index_of (g_toposort g') v"
proof -
  from assms(2) have g': "g' = g\<lparr>g_toposort := g_add_order g\<rparr>"
    by (simp add: finalize_def)
  have "edge g' u v = edge g u v" for u v
    by (simp add: g' edge_def)
  then show ?thesis
    using assms(1) by (simp add: edges_follow_def g')
qed

lemma forward_edge_follows:
  "edges_follow (g_add_order (snd (add_edge three_nodes 0 1))) (snd (add_edge three_nodes 0 1))"
proof -
  have "edges_follow (g_add_order three_nodes) three_nodes"
    by (simp add: edges_follow_def edge_def adj_def three_nodes_fields)
  then show ?thesis
    by (rule edges_follow_add_edge) (simp_all add: three_nodes_fields)
qed

theorem finalize_order_follows_edges_witness:
  "edge (projr (finalize (snd (add_edge three_nodes 0 1)))) 0 1 \<and>
   index_of (g_toposort (projr (finalize (snd (add_edge three_nodes 0 1))))) 0
     < index_of (g_toposort (projr (finalize (snd (add_edge three_nodes 0 1))))) 1"
proof -
  have f: "finalize (snd (add_edge three_nodes 0 1))
             = Inr (projr (finalize (snd (add_edge three_nodes 0 1))))"
    by (simp add: finalize_def)
  have e: "edge (projr (finalize (snd (add_edge three_nodes 0 1)))) 0 1"
    by (simp add: finalize_def edge_def adj_def add_edge_def Let_def three_nodes_fields)
  from finalize_order_follows_edges [OF forward_edge_follows f] e
  show ?thesis by blast
qed

subsection \<open>Rebuilding the edges of a derived graph\<close>

lemma add_edge_unchanged:
  "g_IDMap (snd (add_edge t a b)) = g_IDMap t"
  "g_add_order (snd (add_edge t a b)) = g_add_order t"
  "g_root (snd (add_edge t a b)) = g_root t"
  "g_desc (snd (add_edge t a b)) = g_desc t"
  "g_pop_size (snd (add_edge t a b)) = g_pop_size t"
  by (simp_all add: add_edge_def Let_def)

lemma add_edge_next:
  "adj (g_next_map (snd (add_edge t a b))) u =
     adj (g_next_map t) u @
       (if u = a \<and> map_of (g_IDMap t) a \<noteq> None \<and> map_of (g_IDMap t) b \<noteq> None then [b] else [])"
  by (auto simp: add_edge_def Let_def adj_def)

lemma add_edge_prev:
  "adj (g_prev_map (snd (add_edge t a b))) v =
     adj (g_prev_map t) v @
       (if v = b \<and> map_of (g_IDMap t) a \<noteq> None \<and> map_of (g_IDMap t) b \<noteq> None then [a] else [])"
  by (auto simp: add_edge_def Let_def adj_def)

lemma add_edge_consistent:
  "adj_consistent t \<Longrightarrow> adj_consistent (snd (add_edge t a b))"
  unfolding adj_consistent_def add_edge_next add_edge_prev by auto

lemma add_included_edges_unchanged:
  "g_IDMap (add_included_edges t inc n1 es) = g_IDMap t"
  "g_add_order (add_included_edges t inc n1 es) = g_add_order t"
  "g_root (add_included_edges t inc n1 es) = g_root t"
  "g_desc (add_included_edges t inc n1 es) = g_desc t"
  "g_pop_size (add_included_edges t inc n1 es) = g_pop_size t"
  by (induction es arbitrary: t; simp add: add_edge_unchanged)+

lemma add_included_edges_consistent:
  "adj_consistent t \<Longrightarrow> adj_consistent (add_included_edges t inc n1 es)"
  by (induction es arbitrary: t) (simp_all add: add_edge_consistent)

lemma add_included_edges_next:
  assumes "map_of (g_IDMap t) n1 \<noteq> None"
    and "\<forall>e. map_of inc e \<noteq> None \<longrightarrow> map_of (g_IDMap t) e \<noteq> None"
  shows "adj (g_next_map (add_included_edges t inc n1 es)) u =
     adj (g_next_map t) u @
       (if u = n1 then filter (\<lambda>e. map_of inc e \<noteq> None) es else [])"
  using assms
proof (induction es arbitrary: t)
  case Nil
  then show ?case by simp
next
  case (Cons e es)
  show ?case
  proof (cases "map_of inc e \<noteq> None")
    case True
    have "adj (g_next_map (add_included_edges (snd (add_edge t n1 e)) inc n1 es)) u =
       adj (g_next_map (snd (add_edge t n1 e))) u @
         (if u = n1 then filter (\<lambda>e. map_of inc e \<noteq> None) es else [])"
      by (rule Cons.IH) (use Cons.prems in \<open>simp_all add: add_edge_unchanged\<close>)
    then show ?thesis
      using True Cons.prems by (simp add: add_edge_next)
  next
    case False
    then show ?thesis
      using Cons by simp
  qed
qed

lemma add_edges_of_nodes_unchanged:
  "g_IDMap (add_edges_of_nodes t g inc ns) = g_IDMap t"
  "g_add_order (add_edges_of_nodes t g inc ns) = g_add_order t"
  "g_root (add_edges_of_nodes t g inc ns) = g_root t"
  "g_desc (add_edges_of_nodes t g inc ns) = g_desc t"
  "g_pop_size (add_edges_of_nodes t g inc ns) = g_pop_size t"
  by (induction ns arbitrary: t;
      auto simp: add_included_edges_unchanged split: option.splits)+

lemma add_edges_of_nodes_consistent:
  "adj_consistent t \<Longrightarrow> adj_consistent (add_edges_of_nodes t g inc ns)"
  by (induction ns arbitrary: t)
    (auto simp: add_included_edges_consistent split: option.splits)

lemma add_edges_of_nodes_next:
  assumes "\<forall>p \<in> set ns. map_of (g_IDMap t) (n_id (snd p)) \<noteq> None"
    and "\<forall>e. map_of inc e \<noteq> None \<longrightarrow> map_of (g_IDMap t) e \<noteq> None"
  shows "adj (g_next_map (add_edges_of_nodes t g inc ns)) u =
     adj (g_next_map t) u @
       concat (map (\<lambda>p. if n_id (snd p) = u
                         then filter (\<lambda>e. map_of inc e \<noteq> None) (adj (g_next_map g) u)
                         else []) ns)"
  using assms
proof (induction ns arbitrary: t)
  case Nil
  then show ?case by simp
next
  case (Cons p ns)
  obtain k n where p: "p = (k, n)" by (cases p)
  let ?t1 = "case g_next_map g (n_id n) of None \<Rightarrow> t
             | Some es \<Rightarrow> add_included_edges t inc (n_id n) es"
  have id: "g_IDMap ?t1 = g_IDMap t"
    by (simp add: add_included_edges_unchanged split: option.splits)
  have n1: "map_of (g_IDMap t) (n_id n) \<noteq> None"
    using Cons.prems(1) p by simp
  have step: "adj (g_next_map ?t1) u = adj (g_next_map t) u @
      (if n_id n = u then filter (\<lambda>e. map_of inc e \<noteq> None) (adj (g_next_map g) u) else [])"
  proof (cases "g_next_map g (n_id n)")
    case None
    then show ?thesis by (auto simp: adj_def)
  next
    case (Some es)
    then show ?thesis
      using add_included_edges_next [OF n1 Cons.prems(2), of es u]
      by (auto simp: adj_def)
  qed
  have "adj (g_next_map (add_edges_of_nodes ?t1 g inc ns)) u =
     adj (g_next_map ?t1) u @
       concat (map (\<lambda>p. if n_id (snd p) = u
                         then filter (\<lambda>e. map_of inc e \<noteq> None) (adj (g_next_map g) u)
                         else []) ns)"
    by (rule Cons.IH) (use Cons.prems id in simp_all)
  then show ?case
    by (simp add: p step)
qed

lemma concat_key_absent:
  "u \<notin> fst ` set al \<Longrightarrow> concat (map (\<lambda>p. if fst p = u then ys else []) al) = []"
  by (induction al) auto

lemma concat_key_distinct:
  "distinct (map fst al) \<Longrightarrow>
   concat (map (\<lambda>p. if fst p = u then ys else []) al) = (if u \<in> fst ` set al then ys else [])"
proof (induction al)
  case Nil
  then show ?case by simp
next
  case (Cons p al)
  then have d: "distinct (map fst al)" and np: "fst p \<notin> fst ` set al" by simp_all
  show ?case
  proof (cases "fst p = u")
    case True
    with np have "u \<notin> fst ` set al" by simp
    then have "concat (map (\<lambda>p. if fst p = u then ys else []) al) = []"
      by (rule concat_key_absent)
    with True show ?thesis by simp
  next
    case False
    with Cons.IH [OF d] show ?thesis by simp
  qed
qed

lemma concat_single_key:
  assumes "distinct (map fst al)" and "\<forall>p \<in> set al. n_id (snd p) = fst p"
  shows "concat (map (\<lambda>p. if n_id (snd p) = u then ys else []) al) =
         (if u \<in> fst ` set al then ys else [])"
proof -
  have "map (\<lambda>p. if n_id (snd p) = u then ys else []) al =
        map (\<lambda>p. if fst p = u then ys else []) al"
    using assms(2) by (intro map_cong) auto
  then have "concat (map (\<lambda>p. if n_id (snd p) = u then ys else []) al) =
        concat (map (\<lambda>p. if fst p = u then ys else []) al)"
    by (rule arg_cong)
  also have "\<dots> = (if u \<in> fst ` set al then ys else [])"
    using assms(1) by (rule concat_key_distinct)
  finally show ?thesis .
qed

lemma erase_excluded_take_drop:
  "i \<le> length xs \<Longrightarrow>
   erase_excluded xs inc i = filter (\<lambda>k. map_of inc k \<noteq> None) (take i xs) @ drop i xs"
proof (induction i arbitrary: xs)
  case 0
  then show ?case by simp
next
  case (Suc i)
  then have lt: "i < length xs" by simp
  show ?case
  proof (cases "map_of inc (xs ! i) = None")
    case True
    have "erase_excluded (take i xs @ drop (Suc i) xs) inc i =
          filter (\<lambda>k. map_of inc k \<noteq> None) (take i (take i xs @ drop (Suc i) xs))
            @ drop i (take i xs @ drop (Suc i) xs)"
      by (rule Suc.IH) (use lt in simp)
    then show ?thesis
      using True lt by (simp add: take_Suc_conv_app_nth)
  next
    case False
    have "erase_excluded xs inc i =
          filter (\<lambda>k. map_of inc k \<noteq> None) (take i xs) @ drop i xs"
      by (rule Suc.IH) (use lt in simp)
    then show ?thesis
      using False lt by (auto simp: take_Suc_conv_app_nth Cons_nth_drop_Suc)
  qed
qed

lemma erase_excluded_filter:
  "erase_excluded xs inc (length xs) = filter (\<lambda>k. map_of inc k \<noteq> None) xs"
  by (simp add: erase_excluded_take_drop)


lemma update_absent:
  "k \<notin> fst ` set al \<Longrightarrow> AList.update k v al = al @ [(k, v)]"
  by (induction al) auto

lemma belongs_any_fits:
  assumes "n_ref n \<or> (\<forall>i \<in> set idxs. i < length (n_individuals n))"
  shows "belongs_any n idxs =
           Inr (idxs \<noteq> [] \<and> (n_ref n \<or> (\<exists>i \<in> set idxs. n_individuals n ! i)))"
  using assms by (induction idxs) (auto simp: belongs_def)

lemma set_filter_indexes: "set (filter_indexes flt) = {i. i < length flt \<and> flt ! i}"
  by (auto simp: filter_indexes_def)

lemma filter_indexes_nonempty: "True \<in> set flt \<Longrightarrow> filter_indexes flt \<noteq> []"
proof -
  assume "True \<in> set flt"
  then obtain i where "i < length flt" "flt ! i" by (auto simp: in_set_conv_nth)
  then have "i \<in> set (filter_indexes flt)" by (simp add: set_filter_indexes)
  then show ?thesis by auto
qed

lemma selects_indexes:
  assumes "n_ref n \<or> (\<forall>i \<in> set (filter_indexes flt). i < length (n_individuals n))"
  shows "(n_ref n \<or> (\<exists>i \<in> set (filter_indexes flt). n_individuals n ! i)) = selects flt n"
proof (cases "n_ref n")
  case True
  then show ?thesis by (simp add: selects_def)
next
  case False
  with assms have fit: "\<forall>i \<in> set (filter_indexes flt). i < length (n_individuals n)" by simp
  have "(\<exists>i \<in> set (filter_indexes flt). n_individuals n ! i) =
        (\<exists>p \<in> set (zip flt (n_individuals n)). fst p \<and> snd p)"
  proof
    assume "\<exists>i \<in> set (filter_indexes flt). n_individuals n ! i"
    then obtain i where i: "i < length flt" "flt ! i" "n_individuals n ! i"
      and "i \<in> set (filter_indexes flt)"
      by (auto simp: set_filter_indexes)
    with fit have "i < length (n_individuals n)" by simp
    with i have "(flt ! i, n_individuals n ! i) \<in> set (zip flt (n_individuals n))"
      by (auto simp: set_zip)
    with i show "\<exists>p \<in> set (zip flt (n_individuals n)). fst p \<and> snd p"
      by force
  next
    assume "\<exists>p \<in> set (zip flt (n_individuals n)). fst p \<and> snd p"
    then obtain i where "i < length flt" "flt ! i" "n_individuals n ! i"
      by (auto simp: set_zip)
    then show "\<exists>i \<in> set (filter_indexes flt). n_individuals n ! i"
      by (auto simp: set_filter_indexes)
  qed
  with False show ?thesis by (simp add: selects_def)
qed

lemma include_nodes_fits:
  assumes "\<forall>p \<in> set al. n_ref (snd p) \<or>
             (\<forall>i \<in> set (filter_indexes flt). i < length (n_individuals (snd p)))"
    and "filter_indexes flt \<noteq> []"
    and "distinct (map fst al)"
    and "fst ` set acc \<inter> fst ` set al = {}"
  shows "include_nodes al (filter_indexes flt) acc =
           Inr (acc @ filter (\<lambda>p. selects flt (snd p)) al)"
  using assms
proof (induction al arbitrary: acc)
  case Nil
  then show ?case by simp
next
  case (Cons p al)
  obtain k n where p: "p = (k, n)" by (cases p)
  have fitn: "n_ref n \<or> (\<forall>i \<in> set (filter_indexes flt). i < length (n_individuals n))"
    using Cons.prems(1) p by simp
  have b: "belongs_any n (filter_indexes flt) = Inr (selects flt n)"
    using belongs_any_fits [OF fitn] selects_indexes [OF fitn] Cons.prems(2) by simp
  have kacc: "k \<notin> fst ` set acc"
    using Cons.prems(4) p by auto
  let ?acc1 = "if selects flt n then AList.update k n acc else acc"
  have acc1: "?acc1 = acc @ (if selects flt n then [(k, n)] else [])"
    using kacc by (simp add: update_absent)
  have "include_nodes al (filter_indexes flt) ?acc1 =
          Inr (?acc1 @ filter (\<lambda>p. selects flt (snd p)) al)"
  proof (rule Cons.IH)
    show "\<forall>p \<in> set al. n_ref (snd p) \<or>
             (\<forall>i \<in> set (filter_indexes flt). i < length (n_individuals (snd p)))"
      using Cons.prems(1) by simp
    show "filter_indexes flt \<noteq> []" by (rule Cons.prems(2))
    show "distinct (map fst al)" using Cons.prems(3) by simp
    have kal: "k \<notin> fst ` set al"
      using Cons.prems(3) p by (simp add: image_iff)
    have "fst ` set acc \<inter> fst ` set al = {}"
      using Cons.prems(4) by auto
    with kal show "fst ` set ?acc1 \<inter> fst ` set al = {}"
      unfolding acc1 by (cases "selects flt n") simp_all
  qed
  then show ?case
    unfolding p using b acc1 by simp
qed

lemma map_of_filter_selected:
  assumes "distinct (map fst al)"
  shows "(k \<in> fst ` set (filter (\<lambda>p. P (snd p)) al)) =
         (case map_of al k of None \<Rightarrow> False | Some n \<Rightarrow> P n)"
proof (cases "map_of al k")
  case None
  then have "k \<notin> fst ` set al" by (simp add: map_of_eq_None_iff)
  then show ?thesis using None by force
next
  case (Some n)
  then have in_al: "(k, n) \<in> set al" by (rule map_of_SomeD)
  show ?thesis
  proof (cases "P n")
    case True
    with in_al have "(k, n) \<in> set (filter (\<lambda>p. P (snd p)) al)" by simp
    then have "k \<in> fst ` set (filter (\<lambda>p. P (snd p)) al)" by force
    then show ?thesis using Some True by simp
  next
    case False
    have "k \<notin> fst ` set (filter (\<lambda>p. P (snd p)) al)"
    proof
      assume "k \<in> fst ` set (filter (\<lambda>p. P (snd p)) al)"
      then obtain m where m: "(k, m) \<in> set al" "P m" by auto
      from assms m(1) have "map_of al k = Some m" by simp
      with Some m(2) False show False by simp
    qed
    then show ?thesis using Some False by simp
  qed
qed

lemma iteration_same_map:
  assumes "iteration_order iter" and "distinct (map fst al)"
  shows "set (iter al) = set al" and "distinct (map fst (iter al))"
    and "fst ` set (iter al) = fst ` set al" and "map_of (iter al) = map_of al"
proof -
  from assms show s: "set (iter al) = set al" and d: "distinct (map fst (iter al))"
    by (simp_all add: iteration_order_def)
  from s show "fst ` set (iter al) = fst ` set al" by simp
  show "map_of (iter al) = map_of al"
  proof
    fix k
    show "map_of (iter al) k = map_of al k"
    proof (cases "map_of al k")
      case None
      then have "k \<notin> fst ` set (iter al)" using s by (simp add: map_of_eq_None_iff)
      then have "map_of (iter al) k = None" by (simp add: map_of_eq_None_iff)
      with None show ?thesis by simp
    next
      case (Some v)
      then have "(k, v) \<in> set al" by (rule map_of_SomeD)
      with s have "(k, v) \<in> set (iter al)" by simp
      with d have "map_of (iter al) k = Some v" by (rule map_of_is_SomeI)
      with Some show ?thesis by simp
    qed
  qed
qed

lemma iteration_order_examples: "iteration_order (\<lambda>al. al)" "iteration_order rev"
proof -
  show "iteration_order (\<lambda>al. al)" by (simp add: iteration_order_def)
  have "distinct (map fst (rev al)) = distinct (map fst al)" for al :: "(int \<times> node) list"
    unfolding rev_map [symmetric] by (rule distinct_rev)
  then show "iteration_order rev" by (simp add: iteration_order_def)
qed

lemma rebuilt_edges:
  assumes t: "g_IDMap t = g_IDMap g" "g_next_map t = Map.empty" "g_prev_map t = Map.empty"
    and ns: "set ns = set inc" "distinct (map fst ns)"
    and ids: "\<forall>p \<in> set inc. n_id (snd p) = fst p"
    and sub: "fst ` set inc \<subseteq> fst ` set (g_IDMap g)"
  shows "adj (g_next_map (add_edges_of_nodes t g inc ns)) u =
           (if u \<in> fst ` set inc
            then filter (\<lambda>e. e \<in> fst ` set inc) (adj (g_next_map g) u) else [])"
    and "adj_consistent (add_edges_of_nodes t g inc ns)"
proof -
  have mo: "map_of inc e \<noteq> None \<longleftrightarrow> e \<in> fst ` set inc" for e
    by (simp add: map_of_eq_None_iff)
  have keys: "fst ` set ns = fst ` set inc"
    using ns(1) by simp
  have ids': "\<forall>p \<in> set ns. n_id (snd p) = fst p"
    using ids ns(1) by simp
  have sub': "\<forall>e. map_of inc e \<noteq> None \<longrightarrow> map_of (g_IDMap t) e \<noteq> None"
  proof (intro allI impI)
    fix e
    assume "map_of inc e \<noteq> None"
    then have "e \<in> fst ` set inc" by (simp only: mo)
    with sub have "e \<in> fst ` set (g_IDMap g)" by blast
    then show "map_of (g_IDMap t) e \<noteq> None" by (simp add: t map_of_eq_None_iff)
  qed
  have nodes: "\<forall>p \<in> set ns. map_of (g_IDMap t) (n_id (snd p)) \<noteq> None"
  proof
    fix p assume p: "p \<in> set ns"
    then have "fst p \<in> fst ` set inc" using ns(1) by blast
    with sub have "fst p \<in> fst ` set (g_IDMap g)" by blast
    then have "map_of (g_IDMap t) (fst p) \<noteq> None" by (simp add: t map_of_eq_None_iff)
    moreover from p ids' have "n_id (snd p) = fst p" by blast
    ultimately show "map_of (g_IDMap t) (n_id (snd p)) \<noteq> None" by simp
  qed
  have "adj (g_next_map (add_edges_of_nodes t g inc ns)) u =
       adj (g_next_map t) u @
         concat (map (\<lambda>p. if n_id (snd p) = u
                         then filter (\<lambda>e. map_of inc e \<noteq> None) (adj (g_next_map g) u)
                         else []) ns)"
    by (rule add_edges_of_nodes_next [OF nodes sub'])
  also have "adj (g_next_map t) u = []"
    by (simp add: t adj_def)
  also have "concat (map (\<lambda>p. if n_id (snd p) = u
                         then filter (\<lambda>e. map_of inc e \<noteq> None) (adj (g_next_map g) u)
                         else []) ns) =
       (if u \<in> fst ` set ns
        then filter (\<lambda>e. map_of inc e \<noteq> None) (adj (g_next_map g) u) else [])"
    by (rule concat_single_key [OF ns(2) ids'])
  finally show "adj (g_next_map (add_edges_of_nodes t g inc ns)) u =
           (if u \<in> fst ` set inc
            then filter (\<lambda>e. e \<in> fst ` set inc) (adj (g_next_map g) u) else [])"
    unfolding mo keys by simp
  show "adj_consistent (add_edges_of_nodes t g inc ns)"
    by (rule add_edges_of_nodes_consistent) (simp add: adj_consistent_def t adj_def)
qed

lemma derive_from_spec:
  assumes it: "iteration_order iter"
    and dist: "distinct (map fst inc)"
    and ids: "\<forall>p \<in> set inc. n_id (snd p) = fst p"
    and sub: "fst ` set inc \<subseteq> fst ` set (g_IDMap g)"
    and root: "g_root g \<in> fst ` set inc"
  shows "\<exists>h. derive_from iter g inc d = Inr h \<and>
           g_add_order h = filter (\<lambda>k. k \<in> fst ` set inc) (g_add_order g) \<and>
           g_toposort h = g_add_order h \<and> g_root h = g_root g \<and> g_IDMap h = g_IDMap g \<and>
           (\<forall>u. adj (g_next_map h) u =
              (if u \<in> fst ` set inc
               then filter (\<lambda>e. e \<in> fst ` set inc) (adj (g_next_map g) u) else [])) \<and>
           adj_consistent h"
proof -
  let ?init = "(derived_init g)\<lparr>g_desc := d\<rparr>"
  let ?t = "add_edges_of_nodes ?init g inc (iter inc)"
  have init: "g_IDMap ?init = g_IDMap g" "g_next_map ?init = Map.empty"
    "g_prev_map ?init = Map.empty"
    by (simp_all add: derived_init_def Graph_default_def)
  note ns = iteration_same_map(1,2) [OF it dist]
  note re = rebuilt_edges [OF init ns ids sub]
  have mo: "map_of inc e \<noteq> None \<longleftrightarrow> e \<in> fst ` set inc" for e
    by (simp add: map_of_eq_None_iff)
  have ord: "erase_excluded (g_add_order g) inc (length (g_add_order g)) =
        filter (\<lambda>k. k \<in> fst ` set inc) (g_add_order g)"
    unfolding erase_excluded_filter mo ..
  from root have r: "map_of inc (g_root g) \<noteq> None" by (simp only: mo)
  let ?h = "?t\<lparr>g_root := g_root g,
               g_add_order := filter (\<lambda>k. k \<in> fst ` set inc) (g_add_order g),
               g_toposort := filter (\<lambda>k. k \<in> fst ` set inc) (g_add_order g)\<rparr>"
  have "derive_from iter g inc d = Inr ?h"
    using r by (simp add: derive_from_def build_derived_edges_def Let_def ord finalize_def)
  moreover have "g_IDMap ?h = g_IDMap g"
    by (simp add: add_edges_of_nodes_unchanged derived_init_def)
  moreover have "\<forall>u. adj (g_next_map ?h) u =
              (if u \<in> fst ` set inc
               then filter (\<lambda>e. e \<in> fst ` set inc) (adj (g_next_map g) u) else [])"
    using re(1) by simp
  moreover have "adj_consistent ?h"
    using re(2) by (simp add: adj_consistent_def)
  ultimately show ?thesis by auto
qed

subsection \<open>Graphs built by add_node and add_edge\<close>

text \<open>
  The well-formedness assumed of a parent graph below holds for the empty graph and is kept
  by \<open>add_node\<close> and \<open>add_edge\<close>.
\<close>

lemma edges_closed_ok: "edges_closed g \<Longrightarrow> edges_ok g"
  unfolding edges_closed_def edges_ok_def
  by (auto split: option.splits)

lemma built_default: "node_map_ok (g_IDMap Graph_default) \<and> edges_closed Graph_default"
  by (simp add: node_map_ok_def edges_closed_def Graph_default_def)

lemma built_add_node:
  assumes "node_map_ok (g_IDMap g) \<and> edges_closed g"
  shows "node_map_ok (g_IDMap (snd (add_node g n))) \<and> edges_closed (snd (add_node g n))"
proof (cases "map_of (g_IDMap g) (n_id n) = None")
  case False
  then show ?thesis using assms by (simp add: add_node_def)
next
  case True
  then have new: "n_id n \<notin> fst ` set (g_IDMap g)" by (simp add: map_of_eq_None_iff)
  have m: "g_IDMap (snd (add_node g n)) = g_IDMap g @ [(n_id n, n)]"
    and e: "g_next_map (snd (add_node g n)) = g_next_map g"
    using True by (simp_all add: add_node_def Let_def)
  have "node_map_ok (g_IDMap g @ [(n_id n, n)])"
    using assms new by (auto simp: node_map_ok_def)
  moreover have "edges_closed (snd (add_node g n))"
    using assms unfolding edges_closed_def e m by auto
  ultimately show ?thesis by (simp add: m)
qed

lemma built_add_edge:
  assumes "node_map_ok (g_IDMap g) \<and> edges_closed g"
  shows "node_map_ok (g_IDMap (snd (add_edge g u v))) \<and> edges_closed (snd (add_edge g u v))"
proof (cases "map_of (g_IDMap g) u = None \<or> map_of (g_IDMap g) v = None")
  case True
  then show ?thesis using assms by (simp add: add_edge_def)
next
  case False
  then have uv: "u \<in> fst ` set (g_IDMap g)" "v \<in> fst ` set (g_IDMap g)"
    using absent_iff [of u "g_IDMap g"] absent_iff [of v "g_IDMap g"] by auto
  have m: "g_IDMap (snd (add_edge g u v)) = g_IDMap g"
    by (rule add_edge_unchanged)
  have e: "g_next_map (snd (add_edge g u v)) = (g_next_map g)(u \<mapsto> adj (g_next_map g) u @ [v])"
    using False by (auto simp: add_edge_def Let_def adj_def)
  have "edges_closed (snd (add_edge g u v))"
    unfolding edges_closed_def m e
  proof (intro allI impI)
    fix a es
    assume a: "((g_next_map g)(u \<mapsto> adj (g_next_map g) u @ [v])) a = Some es"
    show "a \<in> fst ` set (g_IDMap g) \<and> es \<noteq> [] \<and> set es \<subseteq> fst ` set (g_IDMap g)"
    proof (cases "a = u")
      case True
      with a have es: "es = adj (g_next_map g) u @ [v]" by simp
      have "set (adj (g_next_map g) u) \<subseteq> fst ` set (g_IDMap g)"
      proof (cases "g_next_map g u")
        case None
        then show ?thesis by (simp add: adj_def)
      next
        case (Some l)
        with assms have "set l \<subseteq> fst ` set (g_IDMap g)"
          unfolding edges_closed_def by blast
        with Some show ?thesis by (simp add: adj_def)
      qed
      with True uv es show ?thesis by simp
    next
      case False
      with a have "g_next_map g a = Some es" by simp
      with assms show ?thesis by (simp add: edges_closed_def)
    qed
  qed
  with assms show ?thesis by (simp add: m)
qed

subsection \<open>Derivation by a haplotype filter\<close>

lemma test_node_fields:
  "n_id node_AAA = 0" "n_id node_CCC = 1" "n_id node_GGG = 2" "n_id node_TTT = 3"
  "n_ref node_AAA" "n_ref node_CCC" "\<not> n_ref node_GGG" "n_ref node_TTT"
  "n_individuals node_GGG = [False, True, False]"
  "n_af node_AAA = Fin 1" "n_af node_CCC = Fin (4 / 10)" "n_af node_GGG = Fin (6 / 10)"
  "n_af node_TTT = Fin 1"
  by (simp_all add: node_AAA_def node_CCC_def node_GGG_def node_TTT_def)

lemma test_graph_fields:
  "g_IDMap test_graph = [(0, node_AAA), (1, node_CCC), (2, node_GGG), (3, node_TTT)]"
  "g_add_order test_graph = [0, 1, 2, 3]"
  "g_toposort test_graph = [0, 1, 2, 3]"
  "g_root test_graph = 0"
  "g_next_map test_graph 0 = Some [1, 2]"
  "g_next_map test_graph 1 = Some [3]"
  "g_next_map test_graph 2 = Some [3]"
  "g_next_map test_graph 3 = None"
  by (simp_all add: test_graph_def test_nodes_def finalize_def add_edge_def add_node_def
      Graph_default_def adj_def Let_def test_node_fields)

lemma include_nodes_no_index: "include_nodes al [] [] = Inr []"
  by (induction al) auto

lemma filter_indexes_all_false: "True \<notin> set flt \<Longrightarrow> filter_indexes flt = []"
proof -
  assume a: "True \<notin> set flt"
  have "\<not> flt ! i" if "i < length flt" for i
    using a that nth_mem [of i flt] by (cases "flt ! i") auto
  then show ?thesis
    by (simp add: filter_indexes_def filter_empty_conv)
qed

text \<open>
  Whatever the parent and whatever the order of the iteration, a filter without a true
  entry includes no node and the derivation fails.
\<close>

lemma Graph_filter_no_true:
  "True \<notin> set flt \<Longrightarrow>
   include_nodes (iter (g_IDMap g)) (filter_indexes flt) [] = Inr [] \<and>
   Graph_filter iter g flt = Inl InvalidDerivation"
  by (simp add: filter_indexes_all_false include_nodes_no_index Graph_filter_def
      build_derived_edges_def)

text \<open>
  C3: the claim says that reference nodes are included for every filter, the all-false
  filter too. On the test graph of graph.h, whose nodes 0, 1 and 3 are reference nodes and
  whose root is node 0, the derivation with the filter \<open>{false, false, false}\<close> asks
  \<open>belongs\<close> for no index: \<open>includedNodes\<close> stays empty, no reference node is included, and the
  constructor fails because the root is not included. This holds for every order of the
  iteration \<open>iter\<close>.
\<close>

theorem Graph_filter_all_false:
  "n_ref node_AAA \<and> n_ref node_CCC \<and> n_ref node_TTT \<and>
   map_of (g_IDMap test_graph) 0 = Some node_AAA \<and>
   map_of (g_IDMap test_graph) 1 = Some node_CCC \<and>
   map_of (g_IDMap test_graph) 3 = Some node_TTT \<and>
   g_root test_graph = 0 \<and>
   belongs node_AAA 0 = Inr (- 1) \<and>
   include_nodes (iter (g_IDMap test_graph)) (filter_indexes [False, False, False]) []
     = Inr [] \<and>
   Graph_filter iter test_graph [False, False, False] = Inl InvalidDerivation"
proof -
  have "True \<notin> set [False, False, False]" by simp
  from Graph_filter_no_true [OF this, of iter test_graph] show ?thesis
    by (simp add: test_graph_fields test_node_fields belongs_def)
qed

text \<open>
  For the filters that have a true entry the derivation follows the inclusion rule. For a
  parent graph with a well-formed node map and a filter with at least one true entry whose
  true indexes lie inside the haplotype bitsets of the nodes that are not reference nodes,
  and for every order of the iteration: a node is included if and only if it is a
  reference node or its bitset has a set bit at an index where the filter is true. When the
  parent's root is included the derivation succeeds: the insertion order of the derived
  graph is the parent's restricted to the included nodes and is its topological order, the
  successors of an included node are its included successors in the parent, in the same
  order, other nodes have none, and the reverse adjacency records the same edges. When the
  root is not included the derivation fails with \<open>InvalidDerivation\<close>.
\<close>

theorem Graph_filter_spec:
  assumes ok: "node_map_ok (g_IDMap g)" and some: "True \<in> set flt"
    and fits: "filter_fits flt g" and it: "iteration_order iter"
  shows
    "\<exists>inc. include_nodes (iter (g_IDMap g)) (filter_indexes flt) [] = Inr inc \<and>
       (\<forall>k. k \<in> fst ` set inc \<longleftrightarrow> selected flt g k) \<and>
       (\<forall>p \<in> set (g_IDMap g). n_ref (snd p) \<longrightarrow> fst p \<in> fst ` set inc) \<and>
       (if selected flt g (g_root g)
        then \<exists>h. Graph_filter iter g flt = Inr h \<and>
               g_add_order h = filter (selected flt g) (g_add_order g) \<and>
               g_toposort h = g_add_order h \<and>
               g_root h = g_root g \<and> g_IDMap h = g_IDMap g \<and>
               (\<forall>u. adj (g_next_map h) u =
                  (if selected flt g u then filter (selected flt g) (adj (g_next_map g) u)
                   else [])) \<and>
               (\<forall>u v. count_list (adj (g_prev_map h) v) u = count_list (adj (g_next_map h) u) v)
        else Graph_filter iter g flt = Inl InvalidDerivation)"
proof -
  let ?al = "iter (g_IDMap g)"
  let ?inc = "filter (\<lambda>p. selects flt (snd p)) ?al"
  from ok have dist0: "distinct (map fst (g_IDMap g))"
    and ids0: "\<forall>p \<in> set (g_IDMap g). n_id (snd p) = fst p"
    by (simp_all add: node_map_ok_def)
  note same = iteration_same_map [OF it dist0]
  have dist: "distinct (map fst ?al)" by (rule same(2))
  have ids: "\<forall>p \<in> set ?al. n_id (snd p) = fst p"
    using ids0 same(1) by simp
  have fits': "\<forall>p \<in> set ?al. n_ref (snd p) \<or>
             (\<forall>i \<in> set (filter_indexes flt). i < length (n_individuals (snd p)))"
    using fits same(1) by (simp add: filter_fits_def)
  have inc: "include_nodes ?al (filter_indexes flt) [] = Inr ?inc"
    using include_nodes_fits [of ?al flt "[]"] fits' dist filter_indexes_nonempty [OF some]
    by simp
  have keys: "k \<in> fst ` set ?inc \<longleftrightarrow> selected flt g k" for k
    using map_of_filter_selected [OF dist, of k "selects flt"]
    by (simp add: selected_def same(4))
  have mo: "map_of ?inc k \<noteq> None \<longleftrightarrow> selected flt g k" for k
    using keys [of k] by (simp add: map_of_eq_None_iff)
  have refs: "\<forall>p \<in> set (g_IDMap g). n_ref (snd p) \<longrightarrow> fst p \<in> fst ` set ?inc"
  proof (intro ballI impI)
    fix p assume "p \<in> set (g_IDMap g)" and r: "n_ref (snd p)"
    then have "p \<in> set ?al" by (simp add: same(1))
    with r have "p \<in> set ?inc" by (simp add: selects_def)
    then show "fst p \<in> fst ` set ?inc" by (rule imageI)
  qed
  have dinc: "distinct (map fst ?inc)"
    using dist by (simp add: distinct_map_filter)
  have iinc: "\<forall>p \<in> set ?inc. n_id (snd p) = fst p"
    using ids by simp
  have sub: "fst ` set ?inc \<subseteq> fst ` set (g_IDMap g)"
    using same(1) by auto
  let ?t = "add_edges_of_nodes (derived_init g) g ?inc (iter ?inc)"
  have init: "g_IDMap (derived_init g) = g_IDMap g" "g_next_map (derived_init g) = Map.empty"
    "g_prev_map (derived_init g) = Map.empty"
    by (simp_all add: derived_init_def Graph_default_def)
  note ns = iteration_same_map(1,2) [OF it dinc]
  note re = rebuilt_edges [OF init ns iinc sub]
  have nxt: "adj (g_next_map ?t) u =
      (if selected flt g u then filter (selected flt g) (adj (g_next_map g) u) else [])" for u
    using re(1) [of u] unfolding keys .
  have cons: "adj_consistent ?t"
    by (rule re(2))
  have ord: "erase_excluded (g_add_order g) ?inc (length (g_add_order g)) =
        filter (selected flt g) (g_add_order g)"
    unfolding erase_excluded_filter mo ..
  show ?thesis
  proof (intro exI conjI allI)
    show "include_nodes ?al (filter_indexes flt) [] = Inr ?inc" by (rule inc)
    show "k \<in> fst ` set ?inc \<longleftrightarrow> selected flt g k" for k by (rule keys)
    show "\<forall>p \<in> set (g_IDMap g). n_ref (snd p) \<longrightarrow> fst p \<in> fst ` set ?inc" by (rule refs)
    show "if selected flt g (g_root g)
        then \<exists>h. Graph_filter iter g flt = Inr h \<and>
               g_add_order h = filter (selected flt g) (g_add_order g) \<and>
               g_toposort h = g_add_order h \<and>
               g_root h = g_root g \<and> g_IDMap h = g_IDMap g \<and>
               (\<forall>u. adj (g_next_map h) u =
                  (if selected flt g u then filter (selected flt g) (adj (g_next_map g) u)
                   else [])) \<and>
               (\<forall>u v. count_list (adj (g_prev_map h) v) u = count_list (adj (g_next_map h) u) v)
        else Graph_filter iter g flt = Inl InvalidDerivation"
    proof (cases "selected flt g (g_root g)")
      case False
      then have "map_of ?inc (g_root g) = None" using mo [of "g_root g"] by simp
      then have "Graph_filter iter g flt = Inl InvalidDerivation"
        by (simp add: Graph_filter_def inc build_derived_edges_def Let_def)
      with False show ?thesis by simp
    next
      case True
      then have r: "map_of ?inc (g_root g) \<noteq> None" using mo [of "g_root g"] by simp
      let ?h = "?t\<lparr>g_root := g_root g,
                   g_add_order := filter (selected flt g) (g_add_order g),
                   g_desc := g_desc g @ ''\<newline>filter: '' @ filter_desc flt,
                   g_toposort := filter (selected flt g) (g_add_order g)\<rparr>"
      have "Graph_filter iter g flt = Inr ?h"
        using r by (simp add: Graph_filter_def inc build_derived_edges_def Let_def ord finalize_def)
      moreover have "g_IDMap ?h = g_IDMap g"
        by (simp add: add_edges_of_nodes_unchanged derived_init_def)
      moreover have "\<forall>u. adj (g_next_map ?h) u =
                  (if selected flt g u then filter (selected flt g) (adj (g_next_map g) u)
                   else [])"
        using nxt by simp
      moreover have "\<forall>u v. count_list (adj (g_prev_map ?h) v) u = count_list (adj (g_next_map ?h) u) v"
        using cons by (simp add: adj_consistent_def)
      ultimately show ?thesis
        using True by auto
    qed
  qed
qed

lemma test_graph_selected:
  "selected [False, False, True] test_graph 0"
  "selected [False, False, True] test_graph 1"
  "\<not> selected [False, False, True] test_graph 2"
  "selected [False, False, True] test_graph 3"
  by (simp_all add: selected_def selects_def test_graph_fields test_node_fields)

theorem Graph_filter_spec_witness:
  "node_map_ok (g_IDMap test_graph) \<and> True \<in> set [False, False, True] \<and>
   filter_fits [False, False, True] test_graph \<and> iteration_order rev \<and>
   Graph_filter rev test_graph [False, False, True]
     = Inr (projr (Graph_filter rev test_graph [False, False, True])) \<and>
   g_add_order (projr (Graph_filter rev test_graph [False, False, True])) = [0, 1, 3] \<and>
   adj (g_next_map (projr (Graph_filter rev test_graph [False, False, True]))) 0 = [1] \<and>
   adj (g_next_map (projr (Graph_filter rev test_graph [False, False, True]))) 1 = [3] \<and>
   adj (g_next_map (projr (Graph_filter rev test_graph [False, False, True]))) 2 = []"
proof -
  have a: "node_map_ok (g_IDMap test_graph)"
    by (simp add: node_map_ok_def test_graph_fields test_node_fields)
  have b: "True \<in> set [False, False, True]" by simp
  have c: "filter_fits [False, False, True] test_graph"
    by (simp add: filter_fits_def filter_indexes_def test_graph_fields test_node_fields)
  have d: "iteration_order rev" by (rule iteration_order_examples)
  from Graph_filter_spec [OF a b c d] test_graph_selected(1) test_graph_fields(4)
  obtain h where h: "Graph_filter rev test_graph [False, False, True] = Inr h"
    and o: "g_add_order h = filter (selected [False, False, True] test_graph)
                              (g_add_order test_graph)"
    and n: "\<forall>u. adj (g_next_map h) u =
              (if selected [False, False, True] test_graph u
               then filter (selected [False, False, True] test_graph)
                      (adj (g_next_map test_graph) u)
               else [])"
    by auto
  have p: "projr (Graph_filter rev test_graph [False, False, True]) = h"
    by (simp add: h)
  show ?thesis
    unfolding p using a b c d h o n
    by (simp add: test_graph_selected test_graph_fields adj_def)
qed

subsection \<open>Derivation by greatest allele frequency\<close>

lemma finite_af_of:
  assumes "finite_afs g" and "map_of (g_IDMap g) k = Some n"
  shows "n_af n = Fin (af_of g k)"
proof -
  from assms(2) have "(k, n) \<in> set (g_IDMap g)" by (rule map_of_SomeD)
  with assms(1) obtain r where "n_af n = Fin r"
    by (cases "n_af n") (auto simp: finite_afs_def)
  then show ?thesis by (simp add: af_of_def assms(2))
qed

lemma max_af_loop_first:
  assumes fin: "finite_afs g"
  shows "first_greatest g pre maxid \<Longrightarrow> max_af_loop g maxid rest = Inr r \<Longrightarrow>
         first_greatest g (pre @ rest) r"
proof (induction rest arbitrary: pre maxid)
  case Nil
  then show ?case by simp
next
  case (Cons i rest)
  from Cons.prems(2) obtain a b where a: "map_of (g_IDMap g) i = Some a"
    and b: "map_of (g_IDMap g) maxid = Some b"
    and loop: "max_af_loop g (if float_gt (n_af a) (n_af b) then i else maxid) rest = Inr r"
    by (auto split: option.splits)
  have gt_iff: "float_gt (n_af a) (n_af b) = (af_of g maxid < af_of g i)"
    by (simp add: finite_af_of [OF fin a] finite_af_of [OF fin b])
  from Cons.prems(1) have m_in: "maxid \<in> set pre"
    and le: "\<forall>x \<in> set pre. af_of g x \<le> af_of g maxid"
    and lt: "\<forall>x \<in> set (takeWhile (\<lambda>x. x \<noteq> maxid) pre). af_of g x < af_of g maxid"
    by (simp_all add: first_greatest_def)
  have "first_greatest g (pre @ [i]) (if float_gt (n_af a) (n_af b) then i else maxid)"
  proof (cases "float_gt (n_af a) (n_af b)")
    case True
    then have gt: "af_of g maxid < af_of g i" by (simp add: gt_iff)
    have "i \<notin> set pre"
    proof
      assume "i \<in> set pre"
      with le have "af_of g i \<le> af_of g maxid" by blast
      with gt show False by simp
    qed
    then have tw: "takeWhile (\<lambda>x. x \<noteq> i) (pre @ [i]) = pre"
      by (induction pre) auto
    have all_lt: "\<forall>x \<in> set pre. af_of g x < af_of g i"
      using le gt by fastforce
    have all_le: "\<forall>x \<in> set (pre @ [i]). af_of g x \<le> af_of g i"
      using all_lt by (auto simp: less_imp_le)
    have "first_greatest g (pre @ [i]) i"
      unfolding first_greatest_def tw using all_lt all_le by simp
    then show ?thesis using True by simp
  next
    case False
    then have "af_of g i \<le> af_of g maxid" by (simp add: gt_iff)
    moreover have "takeWhile (\<lambda>x. x \<noteq> maxid) (pre @ [i]) = takeWhile (\<lambda>x. x \<noteq> maxid) pre"
      using m_in by (simp add: takeWhile_append1)
    ultimately have "first_greatest g (pre @ [i]) maxid"
      unfolding first_greatest_def using m_in le lt by auto
    then show ?thesis using False by simp
  qed
  from Cons.IH [OF this loop] show ?case by simp
qed

lemma max_af_successor_first:
  assumes fin: "finite_afs g" and a: "max_af_successor g succs = Inr m"
  shows "first_greatest g succs m"
proof -
  from a obtain m0 rest where s: "succs = m0 # rest" and l: "max_af_loop g m0 rest = Inr m"
    by (auto simp: max_af_successor_def split: list.splits)
  have "first_greatest g [m0] m0" by (simp add: first_greatest_def)
  from max_af_loop_first [OF fin this l] show ?thesis by (simp add: s)
qed

lemma max_af_loop_total:
  assumes "maxid \<in> fst ` set (g_IDMap g)" and "\<forall>e \<in> set rest. e \<in> fst ` set (g_IDMap g)"
  shows "\<exists>r. max_af_loop g maxid rest = Inr r"
  using assms
proof (induction rest arbitrary: maxid)
  case Nil
  then show ?case by simp
next
  case (Cons i rest)
  from Cons.prems obtain a b where a: "map_of (g_IDMap g) i = Some a"
    and b: "map_of (g_IDMap g) maxid = Some b"
    using absent_iff [of i "g_IDMap g"] absent_iff [of maxid "g_IDMap g"] by auto
  have "\<exists>r. max_af_loop g (if float_gt (n_af a) (n_af b) then i else maxid) rest = Inr r"
    by (rule Cons.IH) (use Cons.prems in auto)
  then show ?case by (simp add: a b)
qed

lemma max_af_successor_total:
  assumes "succs \<noteq> []" and "\<forall>e \<in> set succs. e \<in> fst ` set (g_IDMap g)"
  shows "\<exists>m. max_af_successor g succs = Inr m"
proof -
  from assms(1) obtain m0 rest where s: "succs = m0 # rest" by (cases succs) auto
  with assms(2) max_af_loop_total [of m0 g rest] show ?thesis
    by (simp add: max_af_successor_def)
qed

lemma index_of_less: "x \<in> set xs \<Longrightarrow> index_of xs x < length xs"
  by (induction xs) auto

lemma maxaf_walk_returns:
  assumes ok: "edges_ok g" and fin: "finite_afs g"
    and follow: "edges_follow (g_add_order g) g"
    and cur: "cur \<in> fst ` set (g_IDMap g)"
  shows "\<exists>ns. maxaf_walk g cur inc = Some (Inr (walk_nodes g (cur # ns) inc)) \<and>
           maxaf_path g (cur # ns) \<and> set (cur # ns) \<subseteq> fst ` set (g_IDMap g)"
  using cur
proof (induction "length (g_add_order g) - index_of (g_add_order g) cur"
    arbitrary: cur inc rule: less_induct)
  case less
  from less.prems obtain n where n: "map_of (g_IDMap g) cur = Some n"
    using absent_iff [of cur "g_IDMap g"] by auto
  then have in_map: "(cur, n) \<in> set (g_IDMap g)" by (rule map_of_SomeD)
  show ?case
  proof (cases "g_next_map g cur")
    case None
    have "maxaf_walk g cur inc = Some (Inr (walk_nodes g [cur] inc))"
      by (subst maxaf_walk.simps) (simp add: n None walk_nodes_def)
    moreover have "maxaf_path g [cur]" by (simp add: None)
    ultimately show ?thesis using less.prems by (intro exI [of _ "[]"]) simp
  next
    case (Some succs)
    from ok in_map Some have ne: "succs \<noteq> []"
      and all_in: "\<forall>e \<in> set succs. e \<in> fst ` set (g_IDMap g)"
      by (auto simp: edges_ok_def split: option.splits)
    from max_af_successor_total [OF ne all_in] obtain m
      where m: "max_af_successor g succs = Inr m" by blast
    with fin have fg: "first_greatest g succs m" by (rule max_af_successor_first)
    then have m_in: "m \<in> set succs" by (simp add: first_greatest_def)
    then have "edge g cur m" by (simp add: edge_def adj_def Some)
    with follow have "m \<in> set (g_add_order g)"
      and lt: "index_of (g_add_order g) cur < index_of (g_add_order g) m"
      by (auto simp: edges_follow_def)
    then have "index_of (g_add_order g) m < length (g_add_order g)"
      by (simp add: index_of_less)
    with lt have dec: "length (g_add_order g) - index_of (g_add_order g) m
        < length (g_add_order g) - index_of (g_add_order g) cur" by arith
    from m_in all_in have m_key: "m \<in> fst ` set (g_IDMap g)" by blast
    from less.hyps [OF dec m_key, of "AList.update cur n inc"] obtain ns where
      w: "maxaf_walk g m (AList.update cur n inc) =
            Some (Inr (walk_nodes g (m # ns) (AList.update cur n inc)))"
      and p: "maxaf_path g (m # ns)" and s: "set (m # ns) \<subseteq> fst ` set (g_IDMap g)"
      by blast
    have "maxaf_walk g cur inc = Some (Inr (walk_nodes g (cur # m # ns) inc))"
      by (subst maxaf_walk.simps) (simp add: n Some m w walk_nodes_def)
    moreover have "maxaf_path g (cur # m # ns)"
      using fg p by (simp add: adj_def Some)
    moreover have "set (cur # m # ns) \<subseteq> fst ` set (g_IDMap g)"
      using s less.prems by simp
    ultimately show ?thesis by blast
  qed
qed

lemma walk_nodes_props:
  assumes "distinct (map fst inc)"
    and "\<forall>p \<in> set inc. map_of al (fst p) = Some (snd p)"
    and "set ks \<subseteq> fst ` set al"
  shows "distinct (map fst (fold (\<lambda>k. AList.update k (the (map_of al k))) ks inc)) \<and>
         (\<forall>p \<in> set (fold (\<lambda>k. AList.update k (the (map_of al k))) ks inc).
            map_of al (fst p) = Some (snd p)) \<and>
         fst ` set (fold (\<lambda>k. AList.update k (the (map_of al k))) ks inc)
           = set ks \<union> fst ` set inc"
  using assms
proof (induction ks arbitrary: inc)
  case Nil
  then show ?case by simp
next
  case (Cons k ks)
  from Cons.prems(3) obtain v where v: "map_of al k = Some v"
    using absent_iff [of k al] by auto
  let ?inc1 = "AList.update k (the (map_of al k)) inc"
  have d: "distinct (map fst ?inc1)"
    using Cons.prems(1) by (rule distinct_update)
  have vals: "\<forall>p \<in> set ?inc1. map_of al (fst p) = Some (snd p)"
  proof
    fix p assume "p \<in> set ?inc1"
    then have "(fst p, snd p) \<in> set ?inc1" by simp
    with d have "map_of ?inc1 (fst p) = Some (snd p)"
      by (rule map_of_is_SomeI)
    then have "((map_of inc)(k \<mapsto> v)) (fst p) = Some (snd p)"
      by (simp add: update_conv' v)
    then show "map_of al (fst p) = Some (snd p)"
    proof (cases "fst p = k")
      case True
      with \<open>((map_of inc)(k \<mapsto> v)) (fst p) = Some (snd p)\<close> v show ?thesis by simp
    next
      case False
      with \<open>((map_of inc)(k \<mapsto> v)) (fst p) = Some (snd p)\<close>
      have "map_of inc (fst p) = Some (snd p)" by simp
      then have "(fst p, snd p) \<in> set inc" by (rule map_of_SomeD)
      with Cons.prems(2) show ?thesis by force
    qed
  qed
  have ks: "set ks \<subseteq> fst ` set al" using Cons.prems(3) by simp
  from Cons.IH [OF d vals ks] show ?case
    by (auto simp: dom_update)
qed

lemma maxaf_path_nonempty: "maxaf_path g ns \<Longrightarrow> ns \<noteq> []"
  by (cases ns) auto

lemma maxaf_path_last: "maxaf_path g ns \<Longrightarrow> g_next_map g (last ns) = None"
  by (induction g ns rule: maxaf_path.induct) auto

lemma maxaf_path_step:
  "maxaf_path g ns \<Longrightarrow> Suc i < length ns \<Longrightarrow>
   first_greatest g (adj (g_next_map g) (ns ! i)) (ns ! Suc i)"
proof (induction g ns arbitrary: i rule: maxaf_path.induct)
  case (3 g u v rest)
  then show ?case by (cases i) auto
qed auto

lemma maxaf_path_increasing:
  assumes "edges_follow xs g"
  shows "maxaf_path g (u # ns) \<Longrightarrow> \<forall>v \<in> set ns. index_of xs u < index_of xs v"
proof (induction ns arbitrary: u)
  case Nil
  then show ?case by simp
next
  case (Cons w ns)
  then have fg: "first_greatest g (adj (g_next_map g) u) w" and p: "maxaf_path g (w # ns)"
    by simp_all
  from fg have "edge g u w" by (simp add: first_greatest_def edge_def)
  with assms have uw: "index_of xs u < index_of xs w" by (simp add: edges_follow_def)
  from Cons.IH [OF p] uw show ?case by fastforce
qed

lemma maxaf_path_distinct:
  assumes "edges_follow xs g"
  shows "maxaf_path g ns \<Longrightarrow> distinct ns"
proof (induction ns)
  case Nil
  then show ?case by simp
next
  case (Cons u ns)
  show ?case
  proof (cases ns)
    case Nil
    then show ?thesis by simp
  next
    case (Cons w rest)
    with Cons.prems have p: "maxaf_path g ns" by simp
    from maxaf_path_increasing [OF assms Cons.prems]
    have "u \<notin> set ns" by fastforce
    with Cons.IH [OF p] show ?thesis by simp
  qed
qed

lemma short_list_unique: "length xs \<le> 1 \<Longrightarrow> a \<in> set xs \<Longrightarrow> b \<in> set xs \<Longrightarrow> a = b"
  by (cases xs) auto

lemma count_list_all_same: "set xs \<subseteq> {a} \<Longrightarrow> count_list xs a = length xs"
  by (induction xs) auto

lemma path_only_steps:
  assumes p: "maxaf_path g ns"
    and one: "\<forall>u \<in> set ns. length (filter (\<lambda>v. v \<in> set ns) (adj (g_next_map g) u)) \<le> 1"
    and u: "u \<in> set ns" and v: "v \<in> set ns" and e: "v \<in> set (adj (g_next_map g) u)"
  shows "\<exists>i. Suc i < length ns \<and> ns ! i = u \<and> ns ! Suc i = v"
proof -
  from u obtain i where i: "i < length ns" "ns ! i = u" by (auto simp: in_set_conv_nth)
  have ne: "ns \<noteq> []" using p by (rule maxaf_path_nonempty)
  show ?thesis
  proof (cases "Suc i < length ns")
    case False
    with i have "i = length ns - 1" by arith
    with i ne have "u = last ns" by (simp add: last_conv_nth)
    with maxaf_path_last [OF p] have "adj (g_next_map g) u = []" by (simp add: adj_def)
    with e show ?thesis by simp
  next
    case True
    from maxaf_path_step [OF p True] i
    have w: "ns ! Suc i \<in> set (adj (g_next_map g) u)" by (simp add: first_greatest_def)
    from True have "ns ! Suc i \<in> set ns" by simp
    with w have 1: "ns ! Suc i \<in> set (filter (\<lambda>v. v \<in> set ns) (adj (g_next_map g) u))"
      by simp
    from v e have 2: "v \<in> set (filter (\<lambda>v. v \<in> set ns) (adj (g_next_map g) u))" by simp
    from one u have "length (filter (\<lambda>v. v \<in> set ns) (adj (g_next_map g) u)) \<le> 1" by blast
    from short_list_unique [OF this 1 2] True i show ?thesis by blast
  qed
qed

lemma derived_path_linear:
  assumes p: "maxaf_path g ns" and d: "distinct ns"
    and one: "\<forall>u \<in> set ns. length (filter (\<lambda>v. v \<in> set ns) (adj (g_next_map g) u)) \<le> 1"
    and nxt: "\<forall>u. adj (g_next_map h) u =
                (if u \<in> set ns then filter (\<lambda>v. v \<in> set ns) (adj (g_next_map g) u) else [])"
    and cons: "\<forall>u v. count_list (adj (g_prev_map h) v) u = count_list (adj (g_next_map h) u) v"
  shows "length (adj (g_next_map h) x) \<le> 1 \<and> length (adj (g_prev_map h) x) \<le> 1"
proof
  show n1: "length (adj (g_next_map h) x) \<le> 1" for x
    using nxt one by simp
  have pred: "\<exists>i. Suc i < length ns \<and> ns ! i = u \<and> ns ! Suc i = x"
    if "u \<in> set (adj (g_prev_map h) x)" for u
  proof -
    from that have "count_list (adj (g_prev_map h) x) u \<noteq> 0" by (simp add: count_list_0_iff)
    with cons have "count_list (adj (g_next_map h) u) x \<noteq> 0" by simp
    then have "x \<in> set (adj (g_next_map h) u)" by (simp add: count_list_0_iff)
    with nxt have "u \<in> set ns" "x \<in> set ns" "x \<in> set (adj (g_next_map g) u)"
      by (auto split: if_splits)
    with path_only_steps [OF p one] show ?thesis by blast
  qed
  show "length (adj (g_prev_map h) x) \<le> 1"
  proof (cases "adj (g_prev_map h) x")
    case Nil
    then show ?thesis by simp
  next
    case (Cons u0 rest)
    then have u0: "u0 \<in> set (adj (g_prev_map h) x)" by simp
    from pred [OF u0] obtain i where i: "Suc i < length ns" "ns ! i = u0" "ns ! Suc i = x"
      by blast
    have "set (adj (g_prev_map h) x) \<subseteq> {u0}"
    proof
      fix u assume "u \<in> set (adj (g_prev_map h) x)"
      from pred [OF this] obtain j where j: "Suc j < length ns" "ns ! j = u" "ns ! Suc j = x"
        by blast
      from i j have "ns ! Suc i = ns ! Suc j" by simp
      with d i(1) j(1) have "Suc i = Suc j" by (simp only: nth_eq_iff_index_eq)
      with i j show "u \<in> {u0}" by simp
    qed
    then have "length (adj (g_prev_map h) x) = count_list (adj (g_prev_map h) x) u0"
      by (simp add: count_list_all_same)
    also have "\<dots> = count_list (adj (g_next_map h) u0) x" using cons by simp
    also have "\<dots> \<le> length (adj (g_next_map h) u0)" by (rule count_le_length)
    also have "\<dots> \<le> 1" by (rule n1)
    finally show ?thesis .
  qed
qed


lemma skip_dag_fields:
  "g_IDMap skip_dag =
     [(0, mk_node 0 True 1 [True]), (1, mk_node 1 False (6 / 10) [True]),
      (2, mk_node 2 True (4 / 10) [True])]"
  "g_add_order skip_dag = [0, 1, 2]"
  "g_toposort skip_dag = [0, 1, 2]"
  "g_root skip_dag = 0"
  "g_next_map skip_dag 0 = Some [1, 2]"
  "g_next_map skip_dag 1 = Some [2]"
  "g_next_map skip_dag 2 = None"
  by (simp_all add: skip_dag_def finalize_def add_edge_def add_node_def
      Graph_default_def adj_def Let_def mk_node_def)

lemma skip_dag_walk:
  "maxaf_walk skip_dag 0 [] =
     Some (Inr [(0, mk_node 0 True 1 [True]), (1, mk_node 1 False (6 / 10) [True]),
                (2, mk_node 2 True (4 / 10) [True])])"
proof -
  have 2: "maxaf_walk skip_dag 2 inc = Some (Inr (AList.update 2 (mk_node 2 True (4 / 10) [True]) inc))"
    for inc
    by (subst maxaf_walk.simps) (simp add: skip_dag_fields)
  have 1: "maxaf_walk skip_dag 1 inc =
      maxaf_walk skip_dag 2 (AList.update 1 (mk_node 1 False (6 / 10) [True]) inc)" for inc
    by (subst maxaf_walk.simps) (simp add: skip_dag_fields max_af_successor_def)
  have 0: "maxaf_walk skip_dag 0 inc =
      maxaf_walk skip_dag 1 (AList.update 0 (mk_node 0 True 1 [True]) inc)" for inc
    by (subst maxaf_walk.simps) (simp add: skip_dag_fields max_af_successor_def mk_node_def)
  show ?thesis
    by (simp add: 0 1 2)
qed

text \<open>
  C4: the claim says that a MAXAF derivation from a finalized acyclic parent is a linear
  path (the header documents it: "Both result in linear graphs"). It is not: the walk
  picks the right nodes, but the edges are rebuilt from every parent edge between two
  included nodes. \<open>skip_dag\<close> is finalized, its insertion order \<open>[0, 1, 2]\<close> is topological
  for its edges \<open>0\<rightarrow>1, 0\<rightarrow>2, 1\<rightarrow>2\<close>, and the walk is \<open>0, 1, 2\<close>. In whatever order the
  included nodes are visited, the derivation succeeds and keeps all three edges: node 0
  has the two successors 1 and 2, and node 2 has the two predecessors 0 and 1.
\<close>

theorem maxaf_not_linear:
  assumes it: "iteration_order iter"
  shows "\<exists>h. Graph_type iter skip_dag MAXAF = Some (Inr h) \<and>
           g_toposort h = [0, 1, 2] \<and>
           g_next_map h 0 = Some [1, 2] \<and> g_next_map h 1 = Some [2] \<and>
           0 \<in> set (adj (g_prev_map h) 2) \<and> 1 \<in> set (adj (g_prev_map h) 2)"
proof -
  let ?inc = "[(0::int, mk_node 0 True 1 [True]), (1, mk_node 1 False (6 / 10) [True]),
               (2, mk_node 2 True (4 / 10) [True])]"
  have keys: "fst ` set ?inc = {0, 1, 2}" by simp
  have dist: "distinct (map fst ?inc)" by simp
  have ids: "\<forall>p \<in> set ?inc. n_id (snd p) = fst p" by (simp add: mk_node_def)
  have sub: "fst ` set ?inc \<subseteq> fst ` set (g_IDMap skip_dag)"
    by (simp add: skip_dag_fields)
  have root: "g_root skip_dag \<in> fst ` set ?inc" by (simp add: skip_dag_fields)
  from derive_from_spec [OF it dist ids sub root, of "g_desc skip_dag @ ''\<newline>filter: MAXAF''"]
  obtain h where h: "derive_from iter skip_dag ?inc (g_desc skip_dag @ ''\<newline>filter: MAXAF'') = Inr h"
    and ho: "g_add_order h = filter (\<lambda>k. k \<in> fst ` set ?inc) (g_add_order skip_dag)"
    and ht: "g_toposort h = g_add_order h"
    and hn: "\<forall>u. adj (g_next_map h) u =
              (if u \<in> fst ` set ?inc
               then filter (\<lambda>e. e \<in> fst ` set ?inc) (adj (g_next_map skip_dag) u) else [])"
    and hc: "adj_consistent h"
    by blast
  have w: "maxaf_walk skip_dag (g_root skip_dag) [] = Some (Inr ?inc)"
    by (simp add: skip_dag_fields skip_dag_walk)
  have gt: "Graph_type iter skip_dag MAXAF = Some (Inr h)"
    using h by (simp add: Graph_type_def w)
  have topo: "g_toposort h = [0, 1, 2]"
    unfolding ht ho keys by (simp add: skip_dag_fields)
  from hn have "adj (g_next_map h) 0 =
      (if (0::int) \<in> fst ` set ?inc
       then filter (\<lambda>e. e \<in> fst ` set ?inc) (adj (g_next_map skip_dag) 0) else [])"
    by (rule spec)
  then have a0: "adj (g_next_map h) 0 = [1, 2]"
    unfolding keys by (simp add: adj_def skip_dag_fields)
  from hn have "adj (g_next_map h) 1 =
      (if (1::int) \<in> fst ` set ?inc
       then filter (\<lambda>e. e \<in> fst ` set ?inc) (adj (g_next_map skip_dag) 1) else [])"
    by (rule spec)
  then have a1: "adj (g_next_map h) 1 = [2]"
    unfolding keys by (simp add: adj_def skip_dag_fields)
  from a0 have n0: "g_next_map h 0 = Some [1, 2]"
    by (cases "g_next_map h 0") (simp_all add: adj_def)
  from a1 have n1: "g_next_map h 1 = Some [2]"
    by (cases "g_next_map h 1") (simp_all add: adj_def)
  from hc have c: "count_list (adj (g_prev_map h) 2) u = count_list (adj (g_next_map h) u) 2"
    for u
    by (simp add: adj_consistent_def)
  have "count_list (adj (g_prev_map h) 2) 0 = 1"
    unfolding c a0 by simp
  then have p0: "0 \<in> set (adj (g_prev_map h) 2)"
    by (metis count_list_0_iff zero_neq_one)
  have "count_list (adj (g_prev_map h) 2) 1 = 1"
    unfolding c a1 by simp
  then have p1: "1 \<in> set (adj (g_prev_map h) 2)"
    by (metis count_list_0_iff zero_neq_one)
  from gt topo n0 n1 p0 p1 show ?thesis by blast
qed

text \<open>
  The derivation of \<open>skip_dag\<close> evaluated for two orders of visiting the included nodes:
  the predecessors of node 2 are recorded as \<open>[1, 0]\<close> in the one and \<open>[0, 1]\<close> in the
  other, and both are there in either.
\<close>

theorem maxaf_not_linear_witness:
  "iteration_order rev \<and>
   g_toposort skip_dag = [0, 1, 2] \<and>
   g_next_map skip_dag 0 = Some [1, 2] \<and> g_next_map skip_dag 1 = Some [2] \<and>
   g_next_map skip_dag 2 = None \<and>
   Graph_type rev skip_dag MAXAF = Some (Inr (projr (the (Graph_type rev skip_dag MAXAF)))) \<and>
   g_toposort (projr (the (Graph_type rev skip_dag MAXAF))) = [0, 1, 2] \<and>
   g_next_map (projr (the (Graph_type rev skip_dag MAXAF))) 0 = Some [1, 2] \<and>
   g_next_map (projr (the (Graph_type rev skip_dag MAXAF))) 1 = Some [2] \<and>
   g_prev_map (projr (the (Graph_type rev skip_dag MAXAF))) 2 = Some [1, 0] \<and>
   g_prev_map (projr (the (Graph_type (\<lambda>al. al) skip_dag MAXAF))) 2 = Some [0, 1]"
proof -
  from maxaf_not_linear [OF iteration_order_examples(2)] obtain h where
    h: "Graph_type rev skip_dag MAXAF = Some (Inr h)"
    and t: "g_toposort h = [0, 1, 2]"
    and n: "g_next_map h 0 = Some [1, 2]" "g_next_map h 1 = Some [2]"
    by blast
  have p: "projr (the (Graph_type rev skip_dag MAXAF)) = h"
    by (simp add: h)
  have r: "g_prev_map (projr (the (Graph_type rev skip_dag MAXAF))) 2 = Some [1, 0]"
    by (simp add: Graph_type_def skip_dag_walk derive_from_def build_derived_edges_def
        derived_init_def Graph_default_def skip_dag_fields add_edge_def adj_def Let_def
        finalize_def mk_node_def)
  have i: "g_prev_map (projr (the (Graph_type (\<lambda>al. al) skip_dag MAXAF))) 2 = Some [0, 1]"
    by (simp add: Graph_type_def skip_dag_walk derive_from_def build_derived_edges_def
        derived_init_def Graph_default_def skip_dag_fields add_edge_def adj_def Let_def
        finalize_def mk_node_def)
  from r have r': "g_prev_map h 2 = Some [1, 0]" unfolding p .
  show ?thesis
    unfolding p using iteration_order_examples(2) h t n r' i
    by (simp add: skip_dag_fields)
qed

text \<open>
  What the derivation does produce. For a parent graph with a well-formed node map and
  adjacency and finite allele frequencies, whose insertion order is topological (every
  recorded edge goes from an earlier to a later inserted node) and whose root is a node of
  the graph, the MAXAF derivation returns. It includes exactly the nodes on the walk that
  starts at the root, moves at each step to the successor with the greatest allele
  frequency (the first one in the adjacency list among equals) and stops at a node with no
  successors. The insertion order of the derived graph is the parent's restricted to the
  walk and is its topological order; the derived graph keeps every parent edge between two
  nodes of the walk, so it is a path only when the parent has no other edge between two
  nodes of the walk.
\<close>

lemma maxaf_derivation:
  assumes it: "iteration_order iter"
    and nm: "node_map_ok (g_IDMap g)" and ok: "edges_ok g" and fin: "finite_afs g"
    and follow: "edges_follow (g_add_order g) g"
    and root: "g_root g \<in> fst ` set (g_IDMap g)"
  shows
    "\<exists>ns inc h. hd ns = g_root g \<and> maxaf_path g ns \<and>
       maxaf_walk g (g_root g) [] = Some (Inr inc) \<and> fst ` set inc = set ns \<and>
       Graph_type iter g MAXAF = Some (Inr h) \<and>
       g_add_order h = filter (\<lambda>k. k \<in> set ns) (g_add_order g) \<and>
       g_toposort h = g_add_order h \<and> g_root h = g_root g \<and>
       (\<forall>u. adj (g_next_map h) u =
          (if u \<in> set ns then filter (\<lambda>v. v \<in> set ns) (adj (g_next_map g) u) else [])) \<and>
       (\<forall>u v. count_list (adj (g_prev_map h) v) u = count_list (adj (g_next_map h) u) v) \<and>
       ((\<forall>u \<in> set ns. length (filter (\<lambda>v. v \<in> set ns) (adj (g_next_map g) u)) \<le> 1) \<longrightarrow>
          (\<forall>u. length (adj (g_next_map h) u) \<le> 1 \<and> length (adj (g_prev_map h) u) \<le> 1))"
proof -
  from maxaf_walk_returns [OF ok fin follow root, of "[]"] obtain ms where
    w: "maxaf_walk g (g_root g) [] = Some (Inr (walk_nodes g (g_root g # ms) []))"
    and p: "maxaf_path g (g_root g # ms)"
    and s: "set (g_root g # ms) \<subseteq> fst ` set (g_IDMap g)"
    by blast
  let ?ns = "g_root g # ms"
  let ?inc = "walk_nodes g ?ns []"
  from nm have dist: "distinct (map fst (g_IDMap g))"
    and ids: "\<forall>p \<in> set (g_IDMap g). n_id (snd p) = fst p"
    by (simp_all add: node_map_ok_def)
  from walk_nodes_props [of "[]" "g_IDMap g" ?ns] s
  have dinc: "distinct (map fst ?inc)"
    and vals: "\<forall>p \<in> set ?inc. map_of (g_IDMap g) (fst p) = Some (snd p)"
    and keys: "fst ` set ?inc = set ?ns"
    by (simp_all add: walk_nodes_def)
  have iinc: "\<forall>p \<in> set ?inc. n_id (snd p) = fst p"
  proof
    fix q assume "q \<in> set ?inc"
    with vals have "map_of (g_IDMap g) (fst q) = Some (snd q)" by blast
    then have "(fst q, snd q) \<in> set (g_IDMap g)" by (rule map_of_SomeD)
    with ids show "n_id (snd q) = fst q" by force
  qed
  have sub: "fst ` set ?inc \<subseteq> fst ` set (g_IDMap g)"
    using keys s by simp
  have rin: "g_root g \<in> fst ` set ?inc"
    using keys by simp
  from derive_from_spec [OF it dinc iinc sub rin, of "g_desc g @ ''\<newline>filter: MAXAF''"]
  obtain h where h: "derive_from iter g ?inc (g_desc g @ ''\<newline>filter: MAXAF'') = Inr h"
    and ho: "g_add_order h = filter (\<lambda>k. k \<in> fst ` set ?inc) (g_add_order g)"
    and ht: "g_toposort h = g_add_order h" and hr: "g_root h = g_root g"
    and hn: "\<forall>u. adj (g_next_map h) u =
              (if u \<in> fst ` set ?inc
               then filter (\<lambda>e. e \<in> fst ` set ?inc) (adj (g_next_map g) u) else [])"
    and hc: "adj_consistent h"
    by blast
  have gt: "Graph_type iter g MAXAF = Some (Inr h)"
    by (simp add: Graph_type_def w h)
  have hn': "\<forall>u. adj (g_next_map h) u =
          (if u \<in> set ?ns then filter (\<lambda>v. v \<in> set ?ns) (adj (g_next_map g) u) else [])"
    using hn unfolding keys .
  have hc': "\<forall>u v. count_list (adj (g_prev_map h) v) u = count_list (adj (g_next_map h) u) v"
    using hc by (simp add: adj_consistent_def)
  have dns: "distinct ?ns"
    using maxaf_path_distinct [OF follow p] .
  have lin: "(\<forall>u \<in> set ?ns. length (filter (\<lambda>v. v \<in> set ?ns) (adj (g_next_map g) u)) \<le> 1) \<longrightarrow>
          (\<forall>u. length (adj (g_next_map h) u) \<le> 1 \<and> length (adj (g_prev_map h) u) \<le> 1)"
    using derived_path_linear [OF p dns _ hn' hc'] by blast
  have ho': "g_add_order h = filter (\<lambda>k. k \<in> set ?ns) (g_add_order g)"
    using ho unfolding keys .
  show ?thesis
    apply (rule exI [of _ ?ns], rule exI [of _ ?inc], rule exI [of _ h])
    using p w keys gt ho' ht hr hn' hc' lin by simp
qed

lemma test_graph_walk:
  "maxaf_walk test_graph 0 [] = Some (Inr [(0, node_AAA), (2, node_GGG), (3, node_TTT)])"
proof -
  have 3: "maxaf_walk test_graph 3 inc = Some (Inr (AList.update 3 node_TTT inc))" for inc
    by (subst maxaf_walk.simps) (simp add: test_graph_fields)
  have 2: "maxaf_walk test_graph 2 inc = maxaf_walk test_graph 3 (AList.update 2 node_GGG inc)"
    for inc
    by (subst maxaf_walk.simps) (simp add: test_graph_fields max_af_successor_def)
  have 0: "maxaf_walk test_graph 0 inc = maxaf_walk test_graph 2 (AList.update 0 node_AAA inc)"
    for inc
    by (subst maxaf_walk.simps)
      (simp add: test_graph_fields max_af_successor_def test_node_fields)
  show ?thesis
    by (simp add: 0 2 3)
qed

lemma test_graph_next:
  "g_next_map test_graph u =
     (if u = 0 then Some [1, 2] else if u = 1 then Some [3]
      else if u = 2 then Some [3] else None)"
  by (simp add: test_graph_def test_nodes_def finalize_def add_edge_def add_node_def
      Graph_default_def adj_def Let_def test_node_fields)

lemma test_graph_follows: "edges_follow (g_add_order test_graph) test_graph"
  unfolding edges_follow_def edge_def adj_def test_graph_next test_graph_fields
  by (auto split: if_splits)

lemma maxaf_derivation_test_graph:
  "Graph_type rev test_graph MAXAF =
     Some (Inr (projr (the (Graph_type rev test_graph MAXAF)))) \<and>
   g_add_order (projr (the (Graph_type rev test_graph MAXAF))) = [0, 2, 3] \<and>
   g_toposort (projr (the (Graph_type rev test_graph MAXAF))) = [0, 2, 3] \<and>
   (\<forall>u. length (adj (g_next_map (projr (the (Graph_type rev test_graph MAXAF)))) u) \<le> 1 \<and>
        length (adj (g_prev_map (projr (the (Graph_type rev test_graph MAXAF)))) u) \<le> 1)"
proof -
  have a: "node_map_ok (g_IDMap test_graph)"
    by (simp add: node_map_ok_def test_graph_fields test_node_fields)
  have b: "edges_ok test_graph"
    by (simp add: edges_ok_def test_graph_fields)
  have f: "finite_afs test_graph"
    by (simp add: finite_afs_def test_graph_fields test_node_fields)
  have c: "edges_follow (g_add_order test_graph) test_graph"
    by (rule test_graph_follows)
  have d: "g_root test_graph \<in> fst ` set (g_IDMap test_graph)"
    by (simp add: test_graph_fields)
  from maxaf_derivation [OF iteration_order_examples(2) a b f c d] obtain ns inc h where
    w: "maxaf_walk test_graph (g_root test_graph) [] = Some (Inr inc)"
    and k: "fst ` set inc = set ns"
    and h: "Graph_type rev test_graph MAXAF = Some (Inr h)"
    and o: "g_add_order h = filter (\<lambda>k. k \<in> set ns) (g_add_order test_graph)"
    and t: "g_toposort h = g_add_order h"
    and lin: "(\<forall>u \<in> set ns. length (filter (\<lambda>v. v \<in> set ns)
                 (adj (g_next_map test_graph) u)) \<le> 1) \<longrightarrow>
          (\<forall>u. length (adj (g_next_map h) u) \<le> 1 \<and> length (adj (g_prev_map h) u) \<le> 1)"
    by blast
  from w k have ns: "set ns = {0, 2, 3}"
    by (auto simp: test_graph_fields test_graph_walk)
  have o': "g_add_order h = [0, 2, 3]"
    unfolding o ns by (simp add: test_graph_fields)
  have "\<forall>u \<in> set ns. length (filter (\<lambda>v. v \<in> set ns)
                 (adj (g_next_map test_graph) u)) \<le> 1"
    unfolding ns by (simp add: adj_def test_graph_fields)
  with lin have l: "\<forall>u. length (adj (g_next_map h) u) \<le> 1 \<and> length (adj (g_prev_map h) u) \<le> 1"
    by blast
  have p: "projr (the (Graph_type rev test_graph MAXAF)) = h"
    by (simp add: h)
  show ?thesis
    unfolding p using h o' t l by simp
qed

text \<open>
  On a cyclic parent the walk does not terminate: on the three-node cycle, finalized or
  not, the derivation never returns.
\<close>

lemma cycle3_nodes:
  "map_of (g_IDMap cycle3) 0 = Some (mk_node 0 True 1 [])"
  "map_of (g_IDMap cycle3) 1 = Some (mk_node 1 True 1 [])"
  "map_of (g_IDMap cycle3) 2 = Some (mk_node 2 True 1 [])"
  by (simp_all add: cycle3_def add_edge_unchanged three_nodes_fields)

lemma maxaf_walk_cycle3_never_returns:
  assumes "maxaf_walk g cur inc = Some y"
  shows "\<not> (g_IDMap g = g_IDMap cycle3 \<and> g_next_map g = g_next_map cycle3 \<and> cur \<in> {0, 1, 2})"
proof (rule maxaf_walk.raw_induct
    [where P = "\<lambda>g cur inc y. \<not> (g_IDMap g = g_IDMap cycle3 \<and>
                  g_next_map g = g_next_map cycle3 \<and> cur \<in> {0, 1, 2})"])
  show "maxaf_walk g cur inc = Some y" by (rule assms)
next
  fix walk :: "graph \<Rightarrow> int \<Rightarrow> (int \<times> node) list \<Rightarrow> (error + (int \<times> node) list) option"
  fix g cur inc y
  assume IH: "\<And>g' c i r. walk g' c i = Some r \<Longrightarrow>
      \<not> (g_IDMap g' = g_IDMap cycle3 \<and> g_next_map g' = g_next_map cycle3 \<and> c \<in> {0, 1, 2})"
  assume step: "(case map_of (g_IDMap g) cur of
        None \<Rightarrow> Some (Inl OutOfRange)
      | Some n \<Rightarrow>
          (case g_next_map g cur of
             None \<Rightarrow> Some (Inr (AList.update cur n inc))
           | Some succs \<Rightarrow>
               (case max_af_successor g succs of
                  Inl e \<Rightarrow> Some (Inl e)
                | Inr maxid \<Rightarrow> walk g maxid (AList.update cur n inc)))) = Some y"
  show "\<not> (g_IDMap g = g_IDMap cycle3 \<and> g_next_map g = g_next_map cycle3 \<and> cur \<in> {0, 1, 2})"
  proof
    assume a: "g_IDMap g = g_IDMap cycle3 \<and> g_next_map g = g_next_map cycle3 \<and> cur \<in> {0, 1, 2}"
    then consider "cur = 0" | "cur = 1" | "cur = 2" by auto
    then obtain nxt i where "walk g nxt i = Some y" and "nxt \<in> {0, 1, 2}"
    proof cases
      case 1
      with step a have "walk g 1 (AList.update 0 (mk_node 0 True 1 []) inc) = Some y"
        by (simp add: cycle3_nodes cycle3_fields max_af_successor_def)
      with that show ?thesis by blast
    next
      case 2
      with step a have "walk g 2 (AList.update 1 (mk_node 1 True 1 []) inc) = Some y"
        by (simp add: cycle3_nodes cycle3_fields max_af_successor_def)
      with that show ?thesis by blast
    next
      case 3
      with step a have "walk g 0 (AList.update 2 (mk_node 2 True 1 []) inc) = Some y"
        by (simp add: cycle3_nodes cycle3_fields max_af_successor_def)
      with that show ?thesis by blast
    qed
    with IH a show False by blast
  qed
qed

lemma maxaf_cycle3_diverges:
  "Graph_type iter cycle3 MAXAF = None \<and>
   Graph_type iter (projr (finalize cycle3)) MAXAF = None"
proof -
  have r: "g_root cycle3 = 0"
    by (simp add: cycle3_def add_edge_unchanged three_nodes_fields)
  have 1: "maxaf_walk cycle3 0 [] = None"
    using maxaf_walk_cycle3_never_returns [of cycle3 0 "[]"]
    by (cases "maxaf_walk cycle3 0 []") auto
  have 2: "maxaf_walk (projr (finalize cycle3)) 0 [] = None"
    using maxaf_walk_cycle3_never_returns [of "projr (finalize cycle3)" 0 "[]"]
    by (cases "maxaf_walk (projr (finalize cycle3)) 0 []") (auto simp: finalize_def)
  show ?thesis
    by (simp add: Graph_type_def r 1 2 finalize_def) (use 2 in \<open>simp add: finalize_def\<close>)
qed

subsection \<open>Iterator comparison\<close>

lemma iter_eq_distinct_orders:
  "g_toposort (it_graph a) \<noteq> g_toposort (it_graph b) \<Longrightarrow> \<not> iter_eq a b"
  by (auto simp: iter_eq_def)

lemma iter_at0_fields:
  "g_toposort (it_graph (iter_at0 i)) = [i]"
  "it_idx (iter_at0 i) = 0"
  by (simp_all add: iter_at0_def single_def finalize_def add_node_def Graph_default_def
      mk_node_def Let_def)

text \<open>
  C9: two iterators at index 0, bound to the finalized single-node graphs with the orders
  \<open>[0]\<close> and \<open>[1]\<close>. The orders are distinct and \<open>operator==\<close> returns false, but
  \<open>operator!=\<close> returns false as well: it compares the indices only.
\<close>

theorem iter_neq_ignores_orders:
  "g_toposort (it_graph (iter_at0 0)) \<noteq> g_toposort (it_graph (iter_at0 1)) \<and>
   iter_eq (iter_at0 0) (iter_at0 1) = False \<and>
   iter_neq (iter_at0 0) (iter_at0 1) = False"
  by (simp add: iter_eq_def iter_neq_def iter_at0_fields)

subsection \<open>GraphBuilder::ingroup\<close>

text \<open>
  C10: \<open>ingroup\<close> with a percentage below 0 or above 100 leaves the builder as it was
  (so its ingroup percentage keeps its previous value); a new builder has the value 100.
\<close>

theorem ingroup_out_of_range_ignored:
  "(percent < 0 \<or> percent > 100 \<longrightarrow> ingroup gb percent = gb) \<and>
   gb_ingroup (GraphBuilder_new reffile vcffile) = 100"
  by (simp add: ingroup_def GraphBuilder_new_def)

theorem ingroup_out_of_range_ignored_witness:
  "ingroup (GraphBuilder_new ''r.fa'' ''v.vcf'') 101 = GraphBuilder_new ''r.fa'' ''v.vcf'' \<and>
   ingroup (ingroup (GraphBuilder_new ''r.fa'' ''v.vcf'') 40) (- 1)
     = ingroup (GraphBuilder_new ''r.fa'' ''v.vcf'') 40 \<and>
   gb_ingroup (ingroup (ingroup (GraphBuilder_new ''r.fa'' ''v.vcf'') 40) (- 1)) = 40"
proof -
  have a: "(101::int) < 0 \<or> (101::int) > 100" by simp
  have b: "(- 1::int) < 0 \<or> (- 1::int) > 100" by simp
  have c: "gb_ingroup (ingroup (GraphBuilder_new ''r.fa'' ''v.vcf'') 40) = 40"
    by (simp add: ingroup_def)
  from ingroup_out_of_range_ignored [of 101 "GraphBuilder_new ''r.fa'' ''v.vcf''"] a
    ingroup_out_of_range_ignored [of "- 1" "ingroup (GraphBuilder_new ''r.fa'' ''v.vcf'') 40"] b c
  show ?thesis by simp
qed

subsection \<open>Populations written by GraphManager::write\<close>

lemma find_last_of_split:
  assumes "c \<in> set s"
  shows "find_last_of s c < length s \<and> s ! find_last_of s c = c \<and>
         c \<notin> set (drop (Suc (find_last_of s c)) s)"
proof -
  let ?t = "takeWhile (\<lambda>x. x \<noteq> c) (rev s)"
  let ?d = "dropWhile (\<lambda>x. x \<noteq> c) (rev s)"
  from assms have "c \<in> set (rev s)" by simp
  then have "?d \<noteq> []" by (auto simp: dropWhile_eq_Nil_conv)
  then obtain u where d: "?d = c # u"
    using hd_dropWhile [of "\<lambda>x. x \<noteq> c" "rev s"] by (cases ?d) auto
  have "rev s = ?t @ ?d" by simp
  then have "rev s = ?t @ c # u" by (simp only: d)
  then have "rev (rev s) = rev (?t @ c # u)" by (rule arg_cong)
  then have s: "s = rev u @ c # rev ?t" by simp
  have len: "length s = length u + 1 + length ?t"
    by (subst s) simp
  have n: "find_last_of s c = length (rev u)"
    unfolding find_last_of_def using len by simp
  have "s ! length (rev u) = c"
    by (subst s) (simp only: nth_append_length)
  moreover have "drop (Suc (length (rev u))) s = rev ?t"
    by (subst s) simp
  moreover have "c \<notin> set ?t"
    by (auto dest: set_takeWhileD)
  ultimately show ?thesis
    unfolding n using len by simp
qed

lemma avail_indexes_bits:
  "avail_indexes p js acc = Inr r \<Longrightarrow>
   \<forall>x \<in> set r. x \<in> set acc \<or> (x < length p \<and> p ! x)"
proof (induction js arbitrary: acc)
  case Nil
  then show ?case by simp
next
  case (Cons j js)
  from Cons.prems obtain b where b: "pop_at p j = Inr b"
    and r: "avail_indexes p js (if b then acc @ [j] else acc) = Inr r"
    by (auto split: sum.splits)
  from b have jb: "j < length p" "b = p ! j"
    by (auto simp: pop_at_def split: if_splits)
  from Cons.IH [OF r] jb show ?case
    by (auto split: if_splits)
qed

lemma sample_bits:
  "sample draws avail_set cnt k added pop = Some (Inr (pop', draws')) \<Longrightarrow>
   length pop' = length pop \<and>
   (\<forall>i < length pop. pop' ! i \<longrightarrow> pop ! i \<or> i \<in> set avail_set)"
proof (induction draws arbitrary: k added pop)
  case Nil
  then show ?case by (simp split: if_splits)
next
  case (Cons d rest)
  show ?case
  proof (cases "k < cnt")
    case False
    with Cons.prems show ?thesis by simp
  next
    case True
    with Cons.prems have ne: "avail_set \<noteq> []" by (auto split: if_splits)
    let ?x = "avail_set ! (d mod length avail_set)"
    have x: "?x \<in> set avail_set" using ne by simp
    show ?thesis
    proof (cases "?x \<in> added")
      case True
      with \<open>k < cnt\<close> ne Cons.prems
      have "sample rest avail_set cnt k added pop = Some (Inr (pop', draws'))"
        by (simp add: Let_def)
      from Cons.IH [OF this] show ?thesis .
    next
      case False
      with \<open>k < cnt\<close> ne Cons.prems
      have "sample rest avail_set cnt (Suc k) (insert ?x added) (pop_set pop ?x)
              = Some (Inr (pop', draws'))"
        by (simp add: Let_def)
      from Cons.IH [OF this]
      have l: "length pop' = length (pop_set pop ?x)"
        and b: "\<forall>i < length (pop_set pop ?x). pop' ! i \<longrightarrow>
                  pop_set pop ?x ! i \<or> i \<in> set avail_set"
        by simp_all
      show ?thesis
      proof (intro conjI allI impI)
        show "length pop' = length pop" using l by (simp add: pop_set_def)
      next
        fix i assume i: "i < length pop" and p: "pop' ! i"
        with b have "pop_set pop ?x ! i \<or> i \<in> set avail_set" by (simp add: pop_set_def)
        then show "pop ! i \<or> i \<in> set avail_set"
          using i x by (cases "i = ?x") (auto simp: pop_set_def)
      qed
    qed
  qed
qed

lemma negation_algebra:
  assumes len: "length c = length P" and sub: "\<forall>i < length P. c ! i \<longrightarrow> P ! i"
  shows "pop_and (pop_not c) P = map2 (\<lambda>p b. p \<and> \<not> b) P c"
    and "pop_and c (pop_and (pop_not c) P) = pop_new (length P)"
    and "pop_or c (pop_and (pop_not c) P) = P"
    and "length (pop_and (pop_not c) P) = length P"
proof -
  show "pop_and (pop_not c) P = map2 (\<lambda>p b. p \<and> \<not> b) P c"
    using len by (intro nth_equalityI) (auto simp: pop_and_def pop_not_def)
  show "pop_and c (pop_and (pop_not c) P) = pop_new (length P)"
    using len by (intro nth_equalityI) (auto simp: pop_and_def pop_not_def pop_new_def)
  show "pop_or c (pop_and (pop_not c) P) = P"
    using len sub by (intro nth_equalityI) (auto simp: pop_and_def pop_not_def pop_or_def)
  show "length (pop_and (pop_not c) P) = length P"
    using len by (simp add: pop_and_def pop_not_def)
qed

lemma process_def_step:
  assumes w: "widths_ok nsamps pops"
    and step: "process_def pc nsamps (pops, draws) (name, amt) = Some (Inr (pops', draws'))"
  shows "\<exists>parent leaf P c.
           GDEF_BASE @ GDEF_SCOPE # name = parent @ GDEF_SCOPE # leaf \<and>
           GDEF_SCOPE \<notin> set leaf \<and>
           pops parent = Some P \<and> length P = nsamps \<and> length c = nsamps \<and>
           (\<forall>i < nsamps. c ! i \<longrightarrow> P ! i) \<and>
           pops' = pops(parent @ GDEF_SCOPE # leaf \<mapsto> c,
                        parent @ GDEF_SCOPE # GDEF_NEGATE # leaf \<mapsto> pop_and (pop_not c) P)"
proof -
  let ?label = "GDEF_BASE @ GDEF_SCOPE # name"
  let ?n = "find_last_of ?label GDEF_SCOPE"
  let ?parent = "take ?n ?label"
  let ?leaf = "drop (?n + 1) ?label"
  have "GDEF_SCOPE \<in> set ?label" by simp
  from find_last_of_split [OF this]
  have n: "?n < length ?label" and at: "?label ! ?n = GDEF_SCOPE"
    and leaf: "GDEF_SCOPE \<notin> set ?leaf"
    by simp_all
  have split: "?label = ?parent @ GDEF_SCOPE # ?leaf"
    using id_take_nth_drop [OF n] at by simp
  obtain P where P: "pops ?parent = Some P"
    using step by (cases "pops ?parent") (simp_all add: process_def_def Let_def)
  with w have lP: "length P = nsamps" by (simp add: widths_ok_def)
  let ?cnt = "case amt of Percent q \<Rightarrow> pc (pop_count P) q | Count c \<Rightarrow> c"
  have rest: "(case avail_indexes P [0..<nsamps] [] of
                 Inl e \<Rightarrow> Some (Inl e)
               | Inr avail_set \<Rightarrow>
                   (case sample draws avail_set (nat ?cnt) 0 {} (pop_new nsamps) of
                      None \<Rightarrow> None
                    | Some (Inl e) \<Rightarrow> Some (Inl e)
                    | Some (Inr (pop', draws')) \<Rightarrow>
                        (case (pops(?parent @ GDEF_SCOPE # ?leaf \<mapsto> pop')) ?parent of
                           None \<Rightarrow> Some (Inl LabelOutOfRange)
                         | Some ppop1 \<Rightarrow>
                             Some (Inr ((pops(?parent @ GDEF_SCOPE # ?leaf \<mapsto> pop'))
                               (?parent @ GDEF_SCOPE # GDEF_NEGATE # ?leaf \<mapsto>
                                  pop_and (pop_not pop') ppop1),
                               draws')))))
              = Some (Inr (pops', draws'))"
    using step unfolding process_def_def Let_def fst_conv snd_conv P option.case
    by (simp split: if_splits)
  then obtain av where av: "avail_indexes P [0..<nsamps] [] = Inr av"
    by (cases "avail_indexes P [0..<nsamps] []") simp_all
  from rest obtain c dr where
    smp: "sample draws av (nat ?cnt) 0 {} (pop_new nsamps) = Some (Inr (c, dr))"
    unfolding av sum.case
    by (cases "sample draws av (nat ?cnt) 0 {} (pop_new nsamps)")
      (auto split: sum.splits)
  have par: "(pops(?parent @ GDEF_SCOPE # ?leaf \<mapsto> c)) ?parent = Some P"
    using P by simp
  from rest have res: "pops' = pops(?parent @ GDEF_SCOPE # ?leaf \<mapsto> c,
                        ?parent @ GDEF_SCOPE # GDEF_NEGATE # ?leaf \<mapsto> pop_and (pop_not c) P)"
    unfolding av sum.case smp option.case prod.case par by simp
  from sample_bits [OF smp]
  have lc: "length c = nsamps"
    and bits: "\<forall>i < nsamps. c ! i \<longrightarrow> pop_new nsamps ! i \<or> i \<in> set av"
    by (simp_all add: pop_new_def)
  have sub: "\<forall>i < nsamps. c ! i \<longrightarrow> P ! i"
  proof (intro allI impI)
    fix i assume i: "i < nsamps" and ci: "c ! i"
    with bits have "i \<in> set av" by (auto simp: pop_new_def)
    with avail_indexes_bits [OF av] show "P ! i" by auto
  qed
  show ?thesis
    using split leaf P lP lc sub res by blast
qed

lemma process_def_widths:
  assumes "widths_ok nsamps pops"
    and "process_def pc nsamps (pops, draws) (name, amt) = Some (Inr (pops', draws'))"
  shows "widths_ok nsamps pops'"
proof -
  from process_def_step [OF assms] obtain parent leaf P c where
    "length P = nsamps" "length c = nsamps"
    and res: "pops' = pops(parent @ GDEF_SCOPE # leaf \<mapsto> c,
                        parent @ GDEF_SCOPE # GDEF_NEGATE # leaf \<mapsto> pop_and (pop_not c) P)"
    by blast
  then have "length (pop_and (pop_not c) P) = nsamps"
    by (simp add: pop_and_def pop_not_def)
  with assms(1) \<open>length c = nsamps\<close> show ?thesis
    unfolding res widths_ok_def by auto
qed

lemma process_defs_widths:
  "widths_ok nsamps (fst st) \<Longrightarrow> process_defs pc nsamps st ds = Some (Inr st') \<Longrightarrow>
   widths_ok nsamps (fst st')"
proof (induction ds arbitrary: st)
  case Nil
  then show ?case by simp
next
  case (Cons d ds)
  from Cons.prems(2) obtain st1 where
    1: "process_def pc nsamps st d = Some (Inr st1)"
    and 2: "process_defs pc nsamps st1 ds = Some (Inr st')"
    by (auto split: option.splits sum.splits)
  from 1 Cons.prems(1) have "widths_ok nsamps (fst st1)"
    using process_def_widths [of nsamps "fst st" pc "snd st" "fst d" "snd d" "fst st1" "snd st1"]
    by simp
  from Cons.IH [OF this 2] show ?case .
qed

lemma base_widths: "widths_ok nsamps (base_populations nsamps)"
  by (simp add: widths_ok_def base_populations_def pop_set_all_def pop_new_def)


text \<open>
  C5: for every definition that \<open>write\<close> processes (after the definitions \<open>ds\<close> it has
  processed before), with parent label \<open>parent\<close> and leaf name \<open>leaf\<close>: the population
  stored under \<open>parent/~leaf\<close> is the parent's population with the bits of the child
  \<open>parent/leaf\<close> removed. The child and its negation have no bit in common, and their
  bitwise OR is the parent's population.
\<close>

theorem negation_sibling:
  assumes run: "write_populations pc nsamps ds draws0 = Some (Inr (pops, draws))"
    and step: "process_def pc nsamps (pops, draws) (name, amt) = Some (Inr (pops', draws'))"
  shows "\<exists>parent leaf P c.
           GDEF_BASE @ GDEF_SCOPE # name = parent @ GDEF_SCOPE # leaf \<and>
           GDEF_SCOPE \<notin> set leaf \<and>
           pops parent = Some P \<and> pops' parent = Some P \<and>
           pops' (parent @ GDEF_SCOPE # leaf) = Some c \<and>
           pops' (parent @ GDEF_SCOPE # GDEF_NEGATE # leaf) = Some (pop_and (pop_not c) P) \<and>
           pop_and (pop_not c) P = map2 (\<lambda>p b. p \<and> \<not> b) P c \<and>
           pop_and c (pop_and (pop_not c) P) = pop_new nsamps \<and>
           pop_or c (pop_and (pop_not c) P) = P"
proof -
  from run have "widths_ok nsamps pops"
    using process_defs_widths [of nsamps "(base_populations nsamps, draws0)" pc ds "(pops, draws)"]
      base_widths by (simp add: write_populations_def)
  from process_def_step [OF this step] obtain parent leaf P c where
    l: "GDEF_BASE @ GDEF_SCOPE # name = parent @ GDEF_SCOPE # leaf"
    and s: "GDEF_SCOPE \<notin> set leaf"
    and P: "pops parent = Some P" and lP: "length P = nsamps" and lc: "length c = nsamps"
    and sub: "\<forall>i < nsamps. c ! i \<longrightarrow> P ! i"
    and res: "pops' = pops(parent @ GDEF_SCOPE # leaf \<mapsto> c,
                        parent @ GDEF_SCOPE # GDEF_NEGATE # leaf \<mapsto> pop_and (pop_not c) P)"
    by blast
  have len: "length c = length P" using lP lc by simp
  have sub': "\<forall>i < length P. c ! i \<longrightarrow> P ! i" using sub lP by simp
  note alg = negation_algebra [OF len sub']
  have k1: "pops' parent = Some P"
    unfolding res using P by simp
  have "parent @ GDEF_SCOPE # leaf \<noteq> parent @ GDEF_SCOPE # GDEF_NEGATE # leaf"
  proof
    assume "parent @ GDEF_SCOPE # leaf = parent @ GDEF_SCOPE # GDEF_NEGATE # leaf"
    then have "length (parent @ GDEF_SCOPE # leaf)
        = length (parent @ GDEF_SCOPE # GDEF_NEGATE # leaf)" by (rule arg_cong)
    then show False by simp
  qed
  then have k2: "pops' (parent @ GDEF_SCOPE # leaf) = Some c"
    unfolding res by simp
  have k3: "pops' (parent @ GDEF_SCOPE # GDEF_NEGATE # leaf) = Some (pop_and (pop_not c) P)"
    unfolding res by simp
  show ?thesis
    using l s P k1 k2 k3 alg(1) alg(2) alg(3) lP by blast
qed

lemma upt6: "[0..<6] = [0, 1, 2, 3, 4, 5]"
  by (simp add: upt_conv_Cons)

lemma replicate6: "replicate 6 x = [x, x, x, x, x, x]"
  by (simp add: eval_nat_numeral)

lemma write_sub1:
  "write_populations floor_percent 6 [(''sub1'', Count 2)] [3, 3, 10, 1, 7]
     = Some (Inr (sub1_populations, [1, 7]))"
  by (simp add: write_populations_def process_def_def base_populations_def pop_set_all_def
      pop_new_def find_last_of_def GDEF_BASE_def GDEF_SCOPE_def GDEF_NEGATE_def pop_count_def
      upt6 replicate6 pop_at_def pop_set_def pop_and_def pop_not_def sub1_populations_def Let_def)

lemma process_leaf:
  "process_def floor_percent 6 (sub1_populations, [1, 7]) (''sub1/leaf'', Percent 50)
     = Some (Inr (leaf_populations, [7]))"
  by (simp add: process_def_def pop_new_def find_last_of_def GDEF_BASE_def GDEF_SCOPE_def
      GDEF_NEGATE_def pop_count_def floor_percent_def
      upt6 replicate6 pop_at_def pop_set_def pop_and_def pop_not_def sub1_populations_def
      leaf_populations_def Let_def)

theorem negation_sibling_witness:
  "write_populations floor_percent 6 [(''sub1'', Count 2)] [3, 3, 10, 1, 7]
     = Some (Inr (sub1_populations, [1, 7])) \<and>
   process_def floor_percent 6 (sub1_populations, [1, 7]) (''sub1/leaf'', Percent 50)
     = Some (Inr (leaf_populations, [7])) \<and>
   leaf_populations ''B/sub1'' = Some [False, False, False, True, True, False] \<and>
   leaf_populations ''B/sub1/leaf'' = Some [False, False, False, False, True, False] \<and>
   leaf_populations ''B/sub1/~leaf'' = Some [False, False, False, True, False, False] \<and>
   (\<exists>parent leaf P c.
      GDEF_BASE @ GDEF_SCOPE # ''sub1/leaf'' = parent @ GDEF_SCOPE # leaf \<and>
      GDEF_SCOPE \<notin> set leaf \<and>
      sub1_populations parent = Some P \<and> leaf_populations parent = Some P \<and>
      leaf_populations (parent @ GDEF_SCOPE # leaf) = Some c \<and>
      leaf_populations (parent @ GDEF_SCOPE # GDEF_NEGATE # leaf)
        = Some (pop_and (pop_not c) P) \<and>
      pop_and (pop_not c) P = map2 (\<lambda>p b. p \<and> \<not> b) P c \<and>
      pop_and c (pop_and (pop_not c) P) = pop_new 6 \<and>
      pop_or c (pop_and (pop_not c) P) = P)"
proof -
  have v: "leaf_populations ''B/sub1'' = Some [False, False, False, True, True, False]"
    "leaf_populations ''B/sub1/leaf'' = Some [False, False, False, False, True, False]"
    "leaf_populations ''B/sub1/~leaf'' = Some [False, False, False, True, False, False]"
    by (simp_all add: leaf_populations_def sub1_populations_def)
  from negation_sibling [OF write_sub1 process_leaf] write_sub1 process_leaf v
  show ?thesis by blast
qed

end
